theory Spec2Isabelle
  imports Main "HOL-Library.Word"
begin

unbundle bit_operations_syntax

section \<open>HermesDB: LRU-K replacer and extendible hash table\<close>

subsection \<open>Integer types of package define\<close>

text \<open>
  Modelled from the spec: the package \<^verbatim>\<open>define\<close>, which declares \<^verbatim>\<open>SizeT\<close> and
  \<^verbatim>\<open>FrameIdT\<close>, is not part of the sources. The specification describes a frame
  identifier as an unsigned integer and a size as a non-negative integer that is wide
  enough for every count the program keeps. Both are natural numbers here, so an
  increment never overflows. A decrement is written with the subtraction of \<open>nat\<close>;
  the results on \<open>currSize\<close> below (lemmas \<open>size_inv_clearFrame\<close> and
  \<open>SetEvictable_decrement\<close>, claims C3 and C7) have the form
  \<open>currSize r = Suc (currSize r')\<close>: in a reachable state the counter is positive
  wherever the program decrements it.
\<close>

type_synonym SizeT = nat
type_synonym FrameIdT = nat

subsection \<open>Doubly linked lists of container/list\<close>

text \<open>
  A \<^verbatim>\<open>*list.Element\<close> is an address (a natural number); \<open>None\<close> is the nil pointer.
  A list is the sequence of its elements from front to back, each with its value.
  Every element is allocated by \<^verbatim>\<open>PushFront\<close>; the allocator hands out the addresses
  \<open>0, 1, 2, \<dots>\<close> and never reuses one, so an element belongs to a list exactly when its
  address occurs in it.
\<close>

type_synonym Element = nat
type_synonym 'a List = "(Element \<times> 'a) list"

datatype error =
    Overstep            \<comment> \<open>panic of \<^verbatim>\<open>checkOverstep\<close>\<close>
  | CanNotRemove        \<comment> \<open>panic of \<^verbatim>\<open>Remove\<close> on a frame that is not evictable\<close>
  | NilPointer          \<comment> \<open>nil pointer dereference\<close>
  | IndexOutOfRange     \<comment> \<open>slice index out of range\<close>

text \<open>\<^verbatim>\<open>l.PushFront(v)\<close> with the fresh address \<open>a\<close>.\<close>

definition List_PushFront :: "'a List \<Rightarrow> Element \<Rightarrow> 'a \<Rightarrow> 'a List" where
  "List_PushFront l a v = (a, v) # l"

text \<open>\<^verbatim>\<open>l.Front()\<close>: the first element, nil for the empty list.\<close>

definition List_Front :: "'a List \<Rightarrow> Element option" where
  "List_Front l = (case l of [] \<Rightarrow> None | (a, v) # _ \<Rightarrow> Some a)"

text \<open>
  \<^verbatim>\<open>l.Remove(e)\<close> reads \<^verbatim>\<open>e.list\<close> first, which panics for the nil pointer; an element of
  another list, or one that was removed before, leaves the list as it is.
\<close>

definition List_Remove :: "'a List \<Rightarrow> Element option \<Rightarrow> error + 'a List" where
  "List_Remove l e =
     (case e of None \<Rightarrow> Inl NilPointer
      | Some a \<Rightarrow> Inr (filter (\<lambda>x. fst x \<noteq> a) l))"

subsection \<open>The LRU-K replacer\<close>

record LRUKReplacer =
  currSize :: SizeT
  replacerSize :: SizeT
  k_R :: SizeT
  historyList :: "FrameIdT List"
  historyMap :: "FrameIdT \<rightharpoonup> Element"
  cacheList :: "FrameIdT List"
  cacheMap :: "FrameIdT \<rightharpoonup> Element"
  accessCount :: "FrameIdT \<rightharpoonup> SizeT"
  isEvictable :: "FrameIdT \<rightharpoonup> bool"
  nextElement :: Element   \<comment> \<open>the next address of the allocator\<close>

definition NewLRUKReplacer :: "SizeT \<Rightarrow> SizeT \<Rightarrow> LRUKReplacer" where
  "NewLRUKReplacer numFrames k =
     \<lparr> currSize = 0, replacerSize = numFrames, k_R = k,
       historyList = [], historyMap = Map.empty,
       cacheList = [], cacheMap = Map.empty,
       accessCount = Map.empty, isEvictable = Map.empty,
       nextElement = 0 \<rparr>"

text \<open>Reading a Go map at a missing key gives the zero value.\<close>

definition count_of :: "LRUKReplacer \<Rightarrow> FrameIdT \<Rightarrow> SizeT" where
  "count_of r f = (case accessCount r f of None \<Rightarrow> 0 | Some c \<Rightarrow> c)"

definition evictable :: "LRUKReplacer \<Rightarrow> FrameIdT \<Rightarrow> bool" where
  "evictable r f = (case isEvictable r f of None \<Rightarrow> False | Some b \<Rightarrow> b)"

definition checkOverstep :: "LRUKReplacer \<Rightarrow> FrameIdT \<Rightarrow> error + unit" where
  "checkOverstep r frameId =
     (if frameId > replacerSize r then Inl Overstep else Inr ())"

definition clearFrame :: "LRUKReplacer \<Rightarrow> FrameIdT \<Rightarrow> LRUKReplacer" where
  "clearFrame r frameId =
     r\<lparr> accessCount := (accessCount r)(frameId := None),
        isEvictable := (isEvictable r)(frameId := None),
        currSize := currSize r - 1 \<rparr>"

text \<open>
  The two loops of \<^verbatim>\<open>Evict\<close> walk a list from the back with \<^verbatim>\<open>Prev\<close> and stop at the
  first element whose frame is evictable: \<open>scan_back\<close> takes the list back to front.
\<close>

fun scan_back :: "LRUKReplacer \<Rightarrow> FrameIdT List \<Rightarrow> (Element \<times> FrameIdT) option" where
  "scan_back r [] = None"
| "scan_back r (x # xs) = (if \<not> evictable r (snd x) then scan_back r xs else Some x)"

definition Evict :: "LRUKReplacer \<Rightarrow> LRUKReplacer \<times> FrameIdT \<times> bool" where
  "Evict r =
     (if currSize r = 0 then (r, 0, False)
      else case scan_back r (rev (historyList r)) of
        Some (e, frameId) \<Rightarrow>
          (clearFrame
             (r\<lparr> historyList := filter (\<lambda>x. fst x \<noteq> e) (historyList r),
                 historyMap := (historyMap r)(frameId := None) \<rparr>) frameId,
           frameId, True)
      | None \<Rightarrow>
         (case scan_back r (rev (cacheList r)) of
            Some (e, frameId) \<Rightarrow>
              (clearFrame
                 (r\<lparr> cacheList := filter (\<lambda>x. fst x \<noteq> e) (cacheList r),
                     cacheMap := (cacheMap r)(frameId := None) \<rparr>) frameId,
               frameId, True)
          | None \<Rightarrow> (r, 0, False)))"

definition RecordAccess :: "LRUKReplacer \<Rightarrow> FrameIdT \<Rightarrow> error + LRUKReplacer" where
  "RecordAccess r frameId =
     (case checkOverstep r frameId of Inl err \<Rightarrow> Inl err
      | Inr _ \<Rightarrow>
        let r1 = r\<lparr> accessCount := (accessCount r)(frameId \<mapsto> count_of r frameId + 1) \<rparr>;
            a = nextElement r1
        in if count_of r1 frameId = k_R r1 then
             (case List_Remove (historyList r1) (historyMap r1 frameId) of
                Inl err \<Rightarrow> Inl err
              | Inr hl \<Rightarrow>
                  let cl = List_PushFront (cacheList r1) a frameId
                  in Inr (r1\<lparr> historyList := hl,
                             historyMap := (historyMap r1)(frameId := None),
                             cacheList := cl,
                             cacheMap := (cacheMap r1)(frameId := List_Front cl),
                             nextElement := a + 1 \<rparr>))
           else if count_of r1 frameId > k_R r1 then
             (case (case cacheMap r1 frameId of
                      Some e \<Rightarrow> List_Remove (cacheList r1) (Some e)
                    | None \<Rightarrow> Inr (cacheList r1)) of
                Inl err \<Rightarrow> Inl err
              | Inr cl0 \<Rightarrow>
                  let cl = List_PushFront cl0 a frameId
                  in Inr (r1\<lparr> cacheList := cl,
                             cacheMap := (cacheMap r1)(frameId := List_Front cl),
                             nextElement := a + 1 \<rparr>))
           else
             (case (case historyMap r1 frameId of
                      Some e \<Rightarrow> List_Remove (historyList r1) (Some e)
                    | None \<Rightarrow> Inr (historyList r1)) of
                Inl err \<Rightarrow> Inl err
              | Inr hl0 \<Rightarrow>
                  let hl = List_PushFront hl0 a frameId
                  in Inr (r1\<lparr> historyList := hl,
                             historyMap := (historyMap r1)(frameId := List_Front hl),
                             nextElement := a + 1 \<rparr>)))"

definition SetEvictable :: "LRUKReplacer \<Rightarrow> FrameIdT \<Rightarrow> bool \<Rightarrow> error + LRUKReplacer" where
  "SetEvictable r frameId isEvict =
     (case checkOverstep r frameId of Inl err \<Rightarrow> Inl err
      | Inr _ \<Rightarrow>
        if accessCount r frameId = None then Inr r
        else
          let sizeChange = (if isEvict \<noteq> evictable r frameId then 1 else 0 :: nat)
          in Inr (r\<lparr> currSize := (if isEvict then currSize r + sizeChange
                                   else currSize r - sizeChange),
                      isEvictable := (isEvictable r)(frameId \<mapsto> isEvict) \<rparr>))"

definition LRUK_Remove :: "LRUKReplacer \<Rightarrow> FrameIdT \<Rightarrow> error + LRUKReplacer" where
  "LRUK_Remove r frameId =
     (case checkOverstep r frameId of Inl err \<Rightarrow> Inl err
      | Inr _ \<Rightarrow>
        if accessCount r frameId = None then Inr r
        else if \<not> evictable r frameId then Inl CanNotRemove
        else if count_of r frameId \<ge> k_R r then
          (case List_Remove (cacheList r) (cacheMap r frameId) of
             Inl err \<Rightarrow> Inl err
           | Inr cl \<Rightarrow>
               Inr (clearFrame (r\<lparr> cacheList := cl,
                                   cacheMap := (cacheMap r)(frameId := None) \<rparr>) frameId))
        else
          (case List_Remove (historyList r) (historyMap r frameId) of
             Inl err \<Rightarrow> Inl err
           | Inr hl \<Rightarrow>
               Inr (clearFrame (r\<lparr> historyList := hl,
                                   historyMap := (historyMap r)(frameId := None) \<rparr>) frameId)))"

definition Size :: "LRUKReplacer \<Rightarrow> SizeT" where
  "Size r = currSize r"

subsection \<open>Invariants and reachable states of the replacer\<close>

text \<open>The tracked frames (keys of \<open>accessCount\<close>) whose flag is true.\<close>

definition tracked_evictable :: "LRUKReplacer \<Rightarrow> FrameIdT set" where
  "tracked_evictable r = {f \<in> dom (accessCount r). evictable r f}"

text \<open>
  \<open>size_inv\<close>: the per-frame maps are finite, a flag is stored only for a tracked frame,
  and \<open>currSize\<close> counts the tracked frames that are evictable.
\<close>

definition size_inv :: "LRUKReplacer \<Rightarrow> bool" where
  "size_inv r \<longleftrightarrow>
     finite (dom (accessCount r)) \<and>
     dom (isEvictable r) \<subseteq> dom (accessCount r) \<and>
     currSize r = card (tracked_evictable r)"

text \<open>
  \<open>list_inv\<close>: an untracked frame is in neither map; a tracked frame is in the cache map
  when its count has reached \<open>k\<close> and in the history map otherwise; each map holds
  exactly the elements of its list; element addresses are distinct and were handed out
  by the allocator.
\<close>

definition list_inv :: "LRUKReplacer \<Rightarrow> bool" where
  "list_inv r \<longleftrightarrow>
     (\<forall>f. accessCount r f = None \<longrightarrow> historyMap r f = None \<and> cacheMap r f = None) \<and>
     (\<forall>f c. accessCount r f = Some c \<longrightarrow>
        (if k_R r \<le> c then historyMap r f = None \<and> cacheMap r f \<noteq> None
         else cacheMap r f = None \<and> historyMap r f \<noteq> None)) \<and>
     (\<forall>a f. (a, f) \<in> set (historyList r) \<longleftrightarrow> historyMap r f = Some a) \<and>
     (\<forall>a f. (a, f) \<in> set (cacheList r) \<longleftrightarrow> cacheMap r f = Some a) \<and>
     distinct (map fst (historyList r)) \<and> distinct (map fst (cacheList r)) \<and>
     (\<forall>x \<in> set (historyList r) \<union> set (cacheList r). fst x < nextElement r)"

text \<open>
  The states of a replacer made by \<^verbatim>\<open>NewLRUKReplacer(numFrames, k)\<close> after any sequence of
  calls that return; a call that panics has no successor state.
\<close>

inductive replacer_reachable :: "SizeT \<Rightarrow> SizeT \<Rightarrow> LRUKReplacer \<Rightarrow> bool"
  for numFrames k where
    reach_New: "replacer_reachable numFrames k (NewLRUKReplacer numFrames k)"
  | reach_RecordAccess:
      "replacer_reachable numFrames k r \<Longrightarrow> RecordAccess r f = Inr r' \<Longrightarrow>
       replacer_reachable numFrames k r'"
  | reach_SetEvictable:
      "replacer_reachable numFrames k r \<Longrightarrow> SetEvictable r f b = Inr r' \<Longrightarrow>
       replacer_reachable numFrames k r'"
  | reach_Evict:
      "replacer_reachable numFrames k r \<Longrightarrow> Evict r = (r', res) \<Longrightarrow>
       replacer_reachable numFrames k r'"
  | reach_Remove:
      "replacer_reachable numFrames k r \<Longrightarrow> LRUK_Remove r f = Inr r' \<Longrightarrow>
       replacer_reachable numFrames k r'"

text \<open>A sequence of calls, run from left to right until the first panic.\<close>

datatype operation =
  OpRecordAccess FrameIdT | OpSetEvictable FrameIdT bool | OpEvict | OpRemove FrameIdT

fun apply_operation :: "LRUKReplacer \<Rightarrow> operation \<Rightarrow> error + LRUKReplacer" where
  "apply_operation r (OpRecordAccess f) = RecordAccess r f"
| "apply_operation r (OpSetEvictable f b) = SetEvictable r f b"
| "apply_operation r OpEvict = Inr (fst (Evict r))"
| "apply_operation r (OpRemove f) = LRUK_Remove r f"

fun run :: "LRUKReplacer \<Rightarrow> operation list \<Rightarrow> error + LRUKReplacer" where
  "run r [] = Inr r"
| "run r (x # xs) = (case apply_operation r x of Inl err \<Rightarrow> Inl err | Inr r' \<Rightarrow> run r' xs)"

text \<open>
  The frame that the specification of \<^verbatim>\<open>Evict\<close> names: the backmost evictable frame of
  the history list, or else the backmost evictable frame of the cache list.
\<close>

definition backmost_evictable :: "LRUKReplacer \<Rightarrow> FrameIdT List \<Rightarrow> FrameIdT option" where
  "backmost_evictable r l =
     (let xs = filter (\<lambda>x. evictable r (snd x)) l
      in if xs = [] then None else Some (snd (last xs)))"

definition victim :: "LRUKReplacer \<Rightarrow> FrameIdT option" where
  "victim r =
     (case backmost_evictable r (historyList r) of
        Some f \<Rightarrow> Some f
      | None \<Rightarrow> backmost_evictable r (cacheList r))"

text \<open>
  A run in the style of \<^verbatim>\<open>TestSampleLRUK\<close> (capacity 7, \<open>k = 2\<close>): frames 1, 2 and 3 are
  accessed, 1 and 2 are made evictable, and frame 1 is accessed a second time.
\<close>

definition scenario_ops :: "operation list" where
  "scenario_ops =
     [OpRecordAccess 1, OpRecordAccess 2, OpRecordAccess 3,
      OpSetEvictable 1 True, OpSetEvictable 2 True, OpSetEvictable 3 False,
      OpRecordAccess 1]"

definition scenario :: LRUKReplacer where
  "scenario = projr (run (NewLRUKReplacer 7 2) scenario_ops)"

text \<open>
  With \<open>k = 3\<close>: frame 1 is accessed first, then frame 2, then frame 1 again (its count
  is 2, below \<open>k\<close>); both are made evictable.
\<close>

definition reorder_ops :: "operation list" where
  "reorder_ops =
     [OpRecordAccess 1, OpRecordAccess 2, OpRecordAccess 1,
      OpSetEvictable 1 True, OpSetEvictable 2 True]"

subsection \<open>Hashing\<close>

text \<open>
  \<^verbatim>\<open>helper.Hash32\<close> writes the bytes of the key into \<^verbatim>\<open>fnv.New32()\<close> of the Go standard
  library and returns \<^verbatim>\<open>Sum32()\<close>. \<^verbatim>\<open>New32\<close> is the FNV-1 hash (the FNV-1a hash of the
  library is \<^verbatim>\<open>New32a\<close>): starting from the offset basis 2166136261, each byte first
  multiplies the 32-bit state by the prime 16777619 and is then xor-ed into it.
\<close>

definition Hash32 :: "string \<Rightarrow> 32 word" where
  "Hash32 key = foldl (\<lambda>h c. (h * 16777619) XOR of_char c) 2166136261 key"

subsection \<open>Buckets\<close>

text \<open>
  A bucket has its capacity \<^verbatim>\<open>size\<close>, its local depth and the list of its entries from
  front to back; an entry is a key with its value.
\<close>

record 'v Bucket =
  size_B :: SizeT
  depth_B :: SizeT
  list_B :: "(string \<times> 'v) list"

definition NewBucket :: "SizeT \<Rightarrow> SizeT \<Rightarrow> 'v Bucket" where
  "NewBucket sz depth = \<lparr> size_B = sz, depth_B = depth, list_B = [] \<rparr>"

text \<open>\<^verbatim>\<open>Bucket.Find\<close>: the value of the first entry with the key, or \<^verbatim>\<open>(nil, false)\<close>.\<close>

fun find_loop :: "(string \<times> 'v) list \<Rightarrow> string \<Rightarrow> 'v option \<times> bool" where
  "find_loop [] key = (None, False)"
| "find_loop (entry # es) key =
     (if fst entry = key then (Some (snd entry), True) else find_loop es key)"

definition Bucket_Find :: "'v Bucket \<Rightarrow> string \<Rightarrow> 'v option \<times> bool" where
  "Bucket_Find b key = find_loop (list_B b) key"

text \<open>\<^verbatim>\<open>Bucket.Remove\<close> unlinks the first entry with the key.\<close>

fun remove_loop :: "(string \<times> 'v) list \<Rightarrow> string \<Rightarrow> (string \<times> 'v) list \<times> bool" where
  "remove_loop [] key = ([], False)"
| "remove_loop (entry # es) key =
     (if fst entry = key then (es, True)
      else (entry # fst (remove_loop es key), snd (remove_loop es key)))"

definition Bucket_Remove :: "'v Bucket \<Rightarrow> string \<Rightarrow> 'v Bucket \<times> bool" where
  "Bucket_Remove b key =
     (b\<lparr> list_B := fst (remove_loop (list_B b) key) \<rparr>, snd (remove_loop (list_B b) key))"

text \<open>
  \<^verbatim>\<open>Bucket.Insert\<close> overwrites the value of the first entry with the key; without such
  an entry it refuses when the bucket is full and appends at the back otherwise.
\<close>

fun update_loop :: "(string \<times> 'v) list \<Rightarrow> string \<Rightarrow> 'v \<Rightarrow> (string \<times> 'v) list \<times> bool" where
  "update_loop [] key value = ([], False)"
| "update_loop (entry # es) key value =
     (if fst entry = key then ((key, value) # es, True)
      else (entry # fst (update_loop es key value), snd (update_loop es key value)))"

definition IsFull :: "'v Bucket \<Rightarrow> bool" where
  "IsFull b \<longleftrightarrow> size_B b = length (list_B b)"

definition Bucket_Insert :: "'v Bucket \<Rightarrow> string \<Rightarrow> 'v \<Rightarrow> 'v Bucket \<times> bool" where
  "Bucket_Insert b key value =
     (if snd (update_loop (list_B b) key value)
      then (b\<lparr> list_B := fst (update_loop (list_B b) key value) \<rparr>, True)
      else if IsFull b then (b, False)
      else (b\<lparr> list_B := list_B b @ [(key, value)] \<rparr>, True))"

subsection \<open>The extendible hash table\<close>

text \<open>
  The directory is a slice of bucket pointers and several slots may share one bucket, so
  the buckets live in a store: \<open>heap\<close> lists the buckets allocated so far, a pointer is
  the position of its bucket in \<open>heap\<close>, \<open>None\<close> is nil, and \<^verbatim>\<open>NewBucket\<close> appends to
  \<open>heap\<close>. The mutex is not modelled.
\<close>

type_synonym BucketPtr = "nat option"

record 'v ExtendibleHashTable =
  globalDepth :: SizeT
  bucketSize :: SizeT
  numBuckets :: SizeT
  dir :: "BucketPtr list"
  heap :: "'v Bucket list"

definition NewExtendibleHashTable :: "SizeT \<Rightarrow> 'v ExtendibleHashTable" where
  "NewExtendibleHashTable bs =
     \<lparr> globalDepth = 0, bucketSize = bs, numBuckets = 1,
       dir = [Some 0], heap = [NewBucket bs 0] \<rparr>"

text \<open>
  In \<^verbatim>\<open>uint32((1 << e.globalDepth) - 1)\<close> the constant 1 takes the type \<^verbatim>\<open>uint32\<close>, so
  the shift and the subtraction are those of 32-bit words.
\<close>

definition IndexOf :: "'v ExtendibleHashTable \<Rightarrow> string \<Rightarrow> 32 word" where
  "IndexOf e key = Hash32 key AND (push_bit (globalDepth e) 1 - 1)"

text \<open>\<^verbatim>\<open>e.dir[i]\<close> panics out of range; calling a method on a nil bucket panics.\<close>

definition dir_at :: "'v ExtendibleHashTable \<Rightarrow> 32 word \<Rightarrow> error + BucketPtr" where
  "dir_at e i = (if unat i < length (dir e) then Inr (dir e ! unat i) else Inl IndexOutOfRange)"

definition deref :: "'v ExtendibleHashTable \<Rightarrow> BucketPtr \<Rightarrow> error + nat \<times> 'v Bucket" where
  "deref e p =
     (case p of None \<Rightarrow> Inl NilPointer
      | Some a \<Rightarrow> if a < length (heap e) then Inr (a, heap e ! a) else Inl NilPointer)"

text \<open>\<^verbatim>\<open>e.dir[e.IndexOf(key)]\<close>, dereferenced: the address of the bucket and the bucket.\<close>

definition bucket_of :: "'v ExtendibleHashTable \<Rightarrow> string \<Rightarrow> error + nat \<times> 'v Bucket" where
  "bucket_of e key =
     (case dir_at e (IndexOf e key) of Inl err \<Rightarrow> Inl err | Inr p \<Rightarrow> deref e p)"

definition Find :: "'v ExtendibleHashTable \<Rightarrow> string \<Rightarrow> error + 'v option \<times> bool" where
  "Find e key =
     (case bucket_of e key of Inl err \<Rightarrow> Inl err
      | Inr (a, targetBucket) \<Rightarrow> Inr (Bucket_Find targetBucket key))"

definition Remove :: "'v ExtendibleHashTable \<Rightarrow> string \<Rightarrow> error + 'v ExtendibleHashTable \<times> bool" where
  "Remove e key =
     (case bucket_of e key of Inl err \<Rightarrow> Inl err
      | Inr (a, targetBucket) \<Rightarrow>
          Inr (e\<lparr> heap := (heap e)[a := fst (Bucket_Remove targetBucket key)] \<rparr>,
               snd (Bucket_Remove targetBucket key)))"

text \<open>\<^verbatim>\<open>e.dir[e.IndexOf(key)].Insert(key, value)\<close>: the table afterwards and the result.\<close>

definition insert_at :: "'v ExtendibleHashTable \<Rightarrow> string \<Rightarrow> 'v \<Rightarrow> error + 'v ExtendibleHashTable \<times> bool" where
  "insert_at e key value =
     (case bucket_of e key of Inl err \<Rightarrow> Inl err
      | Inr (a, b) \<Rightarrow>
          Inr (e\<lparr> heap := (heap e)[a := fst (Bucket_Insert b key value)] \<rparr>,
               snd (Bucket_Insert b key value)))"

text \<open>
  The loop that doubles the directory,
  \<^verbatim>\<open>for i := 0; i < len(e.dir); i++ { e.dir = append(e.dir, e.dir[i]) }\<close>,
  reads the length of the directory anew before every iteration. It need not terminate,
  so it is a partial function: \<open>None\<close> stands for a loop that never returns.
\<close>

partial_function (option) double_dir :: "nat \<Rightarrow> BucketPtr list \<Rightarrow> BucketPtr list option" where
  "double_dir i d = (if i < length d then double_dir (i + 1) (d @ [d ! i]) else Some d)"

text \<open>
  The first step of the loop body of \<^verbatim>\<open>Insert\<close>: when the local depth of the bucket of
  the key equals the global depth, the global depth is incremented and the directory
  is doubled.
\<close>

definition grow :: "'v ExtendibleHashTable \<Rightarrow> string \<Rightarrow> (error + 'v ExtendibleHashTable) option" where
  "grow e key =
     (case bucket_of e key of Inl err \<Rightarrow> Some (Inl err)
      | Inr (a, b) \<Rightarrow>
          if depth_B b = globalDepth e then
            (case double_dir 0 (dir e) of None \<Rightarrow> None
             | Some d \<Rightarrow> Some (Inr (e\<lparr> globalDepth := globalDepth e + 1, dir := d \<rparr>)))
          else Some (Inr e))"

text \<open>
  The loop over \<^verbatim>\<open>i := uint32(0); i < uint32(len(e.dir)); i++\<close> that moves the slots of
  the split bucket to the two new buckets.
\<close>

definition repoint :: "BucketPtr list \<Rightarrow> BucketPtr \<Rightarrow> 32 word \<Rightarrow> BucketPtr \<Rightarrow> BucketPtr \<Rightarrow> BucketPtr list" where
  "repoint d targetBucket localDepthMask bucket0 bucket1 =
     foldl (\<lambda>d i. if d ! i = targetBucket
                   then d[i := (if (word_of_nat i :: 32 word) AND localDepthMask = 0 then bucket0 else bucket1)]
                   else d)
       d [0 ..< unat (word_of_nat (length d) :: 32 word)]"

text \<open>
  The loop that inserts the entries of the split bucket again, each into the bucket its
  key now leads to; the result of \<^verbatim>\<open>Bucket.Insert\<close> is dropped.
\<close>

fun reinsert :: "'v ExtendibleHashTable \<Rightarrow> (string \<times> 'v) list \<Rightarrow> error + 'v ExtendibleHashTable" where
  "reinsert e [] = Inr e"
| "reinsert e (entry # items) =
     (case insert_at e (fst entry) (snd entry) of Inl err \<Rightarrow> Inl err
      | Inr r \<Rightarrow> reinsert (fst r) items)"

text \<open>
  The rest of the loop body: the local depth of the bucket is incremented, two buckets
  of that depth are allocated, \<open>numBuckets\<close> is incremented, the slots are moved and the
  entries are inserted again.
\<close>

definition split :: "'v ExtendibleHashTable \<Rightarrow> string \<Rightarrow> error + 'v ExtendibleHashTable" where
  "split e key =
     (case bucket_of e key of Inl err \<Rightarrow> Inl err
      | Inr (a, b) \<Rightarrow>
          let targetBucket = b\<lparr> depth_B := depth_B b + 1 \<rparr>;
              heap1 = (heap e)[a := targetBucket];
              bucket0 = length heap1;
              bucket1 = length heap1 + 1;
              heap2 = heap1 @ [NewBucket (bucketSize e) (depth_B targetBucket),
                               NewBucket (bucketSize e) (depth_B targetBucket)];
              localDepthMask = push_bit (depth_B targetBucket - 1) (1 :: 32 word);
              e1 = e\<lparr> heap := heap2, numBuckets := numBuckets e + 1,
                      dir := repoint (dir e) (Some a) localDepthMask (Some bucket0) (Some bucket1) \<rparr>
          in reinsert e1 (list_B targetBucket))"

text \<open>
  \<^verbatim>\<open>Insert\<close> repeats the loop body for as long as the bucket of the key refuses the pair.
  The result is \<open>None\<close> when the call never returns, \<open>Some (Inl err)\<close> when it panics
  and \<open>Some (Inr e')\<close> when it returns with the table \<open>e'\<close>.
\<close>

partial_function (option) Insert ::
  "'v ExtendibleHashTable \<Rightarrow> string \<Rightarrow> 'v \<Rightarrow> (error + 'v ExtendibleHashTable) option" where
  "Insert e key value =
     (case insert_at e key value of Inl err \<Rightarrow> Some (Inl err)
      | Inr r \<Rightarrow>
          if snd r then Some (Inr (fst r))
          else (case grow e key of None \<Rightarrow> None
                | Some (Inl err) \<Rightarrow> Some (Inl err)
                | Some (Inr e1) \<Rightarrow>
                    (case split e1 key of Inl err \<Rightarrow> Some (Inl err)
                     | Inr e2 \<Rightarrow> Insert e2 key value)))"

declare double_dir.simps [code]

declare Insert.simps [code]

subsection \<open>The later version of Insert\<close>

text \<open>
  The sources hold a later version of the table as well (after the separator in
  \<^verbatim>\<open>bucket.go\<close>). Its \<^verbatim>\<open>Insert\<close> differs from the one above in the loop that doubles the
  directory, which reads the length once:
  \<^verbatim>\<open>capacity := len(e.dir); for i := 0; i < capacity; i++ { e.dir = append(e.dir, e.dir[i]) }\<close>.
  It is modelled for comparison only; the claims are settled on the version above.
\<close>

definition double_dir_v2 :: "BucketPtr list \<Rightarrow> BucketPtr list" where
  "double_dir_v2 d = foldl (\<lambda>d i. d @ [d ! i]) d [0 ..< length d]"

definition grow_v2 :: "'v ExtendibleHashTable \<Rightarrow> string \<Rightarrow> error + 'v ExtendibleHashTable" where
  "grow_v2 e key =
     (case bucket_of e key of Inl err \<Rightarrow> Inl err
      | Inr (a, b) \<Rightarrow>
          if depth_B b = globalDepth e
          then Inr (e\<lparr> globalDepth := globalDepth e + 1, dir := double_dir_v2 (dir e) \<rparr>)
          else Inr e)"

partial_function (option) Insert_v2 ::
  "'v ExtendibleHashTable \<Rightarrow> string \<Rightarrow> 'v \<Rightarrow> (error + 'v ExtendibleHashTable) option" where
  "Insert_v2 e key value =
     (case insert_at e key value of Inl err \<Rightarrow> Some (Inl err)
      | Inr r \<Rightarrow>
          if snd r then Some (Inr (fst r))
          else (case grow_v2 e key of Inl err \<Rightarrow> Some (Inl err)
                | Inr e1 \<Rightarrow>
                    (case split e1 key of Inl err \<Rightarrow> Some (Inl err)
                     | Inr e2 \<Rightarrow> Insert_v2 e2 key value)))"

declare Insert_v2.simps [code]

subsection \<open>Invariants and reachable states of the table\<close>

text \<open>
  The states of a table made by \<^verbatim>\<open>NewExtendibleHashTable(bs)\<close> after any sequence of calls
  of \<^verbatim>\<open>Insert\<close> and \<^verbatim>\<open>Remove\<close> that return (\<^verbatim>\<open>Find\<close> does not change the table).
\<close>

inductive table_reachable :: "SizeT \<Rightarrow> 'v ExtendibleHashTable \<Rightarrow> bool" for bs where
    reach_NewTable: "table_reachable bs (NewExtendibleHashTable bs)"
  | reach_Insert:
      "table_reachable bs e \<Longrightarrow> Insert e key value = Some (Inr e') \<Longrightarrow> table_reachable bs e'"
  | reach_TableRemove:
      "table_reachable bs e \<Longrightarrow> Remove e key = Inr (e', b) \<Longrightarrow> table_reachable bs e'"

text \<open>
  The structural invariant of the directory: its length is \<open>2 ^ globalDepth\<close>, every
  slot points to an allocated bucket whose local depth is at most the global depth, and
  two slots with the same bucket agree on the low \<open>localDepth\<close> bits of their indices.
\<close>

definition dir_inv :: "'v ExtendibleHashTable \<Rightarrow> bool" where
  "dir_inv e \<longleftrightarrow>
     length (dir e) = 2 ^ globalDepth e \<and>
     (\<forall>i < length (dir e). \<exists>a. dir e ! i = Some a \<and> a < length (heap e) \<and>
        depth_B (heap e ! a) \<le> globalDepth e) \<and>
     (\<forall>i < length (dir e). \<forall>j < length (dir e). \<forall>a.
        dir e ! i = Some a \<longrightarrow> dir e ! j = Some a \<longrightarrow>
        i mod 2 ^ depth_B (heap e ! a) = j mod 2 ^ depth_B (heap e ! a))"

text \<open>A key is present when some bucket of the directory has an entry with it.\<close>

definition present :: "'v ExtendibleHashTable \<Rightarrow> string \<Rightarrow> bool" where
  "present e key \<longleftrightarrow>
     (\<exists>p \<in> set (dir e). case p of None \<Rightarrow> False
        | Some a \<Rightarrow> a < length (heap e) \<and> key \<in> fst ` set (list_B (heap e ! a)))"

text \<open>A table that still has its first directory: one slot, one bucket of depth 0.\<close>

definition single_bucket :: "'v ExtendibleHashTable \<Rightarrow> bool" where
  "single_bucket e \<longleftrightarrow>
     globalDepth e = 0 \<and> dir e = [Some 0] \<and> length (heap e) = 1 \<and>
     depth_B (heap e ! 0) = 0 \<and> numBuckets e = 1"

text \<open>The table with buckets of capacity 1 after \<^verbatim>\<open>Insert("1", "a")\<close>.\<close>

definition table1 :: "string ExtendibleHashTable" where
  "table1 =
     \<lparr> globalDepth = 0, bucketSize = 1, numBuckets = 1, dir = [Some 0],
       heap = [\<lparr> size_B = 1, depth_B = 0, list_B = [(''1'', ''a'')] \<rparr>] \<rparr>"

text \<open>
  The table that the later version of \<^verbatim>\<open>Insert\<close> makes of \<open>table1\<close> and the pair
  \<^verbatim>\<open>("2", "b")\<close>: the directory has two slots, the split bucket (address 0) is no longer
  in the directory, and each of the two new buckets holds one key.
\<close>

definition table2 :: "string ExtendibleHashTable" where
  "table2 =
     \<lparr> globalDepth = 1, bucketSize = 1, numBuckets = 2, dir = [Some 1, Some 2],
       heap = [\<lparr> size_B = 1, depth_B = 1, list_B = [(''1'', ''a'')] \<rparr>,
               \<lparr> size_B = 1, depth_B = 1, list_B = [(''1'', ''a'')] \<rparr>,
               \<lparr> size_B = 1, depth_B = 1, list_B = [(''2'', ''b'')] \<rparr>] \<rparr>"

text \<open>
  A table of global depth 1 whose two slots share one full bucket of local depth 0, and
  the table that the splitting part of the loop body of \<^verbatim>\<open>Insert\<close> makes of it for the
  key \<^verbatim>\<open>"2"\<close>: the two slots hold the two new buckets, and the entry of the split bucket
  is in the bucket its key leads to (the hash of \<^verbatim>\<open>"1"\<close> is even, that of \<^verbatim>\<open>"2"\<close> is odd).
\<close>

definition table_shared :: "string ExtendibleHashTable" where
  "table_shared =
     \<lparr> globalDepth = 1, bucketSize = 1, numBuckets = 1, dir = [Some 0, Some 0],
       heap = [\<lparr> size_B = 1, depth_B = 0, list_B = [(''1'', ''a'')] \<rparr>] \<rparr>"

definition table_split :: "string ExtendibleHashTable" where
  "table_split =
     \<lparr> globalDepth = 1, bucketSize = 1, numBuckets = 2, dir = [Some 1, Some 2],
       heap = [\<lparr> size_B = 1, depth_B = 1, list_B = [(''1'', ''a'')] \<rparr>,
               \<lparr> size_B = 1, depth_B = 1, list_B = [(''1'', ''a'')] \<rparr>,
               \<lparr> size_B = 1, depth_B = 1, list_B = [] \<rparr>] \<rparr>"

text \<open>
  Two tables have the same shape when they differ at most in the entries of their
  buckets: the depths, the directory and the local depths of all buckets are equal.
\<close>

definition same_shape :: "'v ExtendibleHashTable \<Rightarrow> 'v ExtendibleHashTable \<Rightarrow> bool" where
  "same_shape e e' \<longleftrightarrow>
     globalDepth e' = globalDepth e \<and> bucketSize e' = bucketSize e \<and>
     numBuckets e' = numBuckets e \<and> dir e' = dir e \<and>
     map depth_B (heap e') = map depth_B (heap e)"

text \<open>The body of the loop that moves the slots of the split bucket, at the index \<open>i\<close>.\<close>

definition repoint_step :: "BucketPtr \<Rightarrow> 32 word \<Rightarrow> BucketPtr \<Rightarrow> BucketPtr \<Rightarrow> BucketPtr list \<Rightarrow> nat \<Rightarrow> BucketPtr list" where
  "repoint_step t m b0 b1 d i =
     (if d ! i = t then d[i := (if (word_of_nat i :: 32 word) AND m = 0 then b0 else b1)] else d)"

text \<open>
  From a global depth of 32 on, the bound \<^verbatim>\<open>uint32(len(e.dir))\<close> of the loop that moves the
  slots is 0, so that a split leaves the directory as it is. A table is stuck at a key
  when it has such a depth and the bucket of the key is full and does not hold the key;
  \<open>keeps_full\<close> relates a table to one with the same directory in which every full
  bucket has kept its keys.
\<close>

definition keeps_full :: "'v ExtendibleHashTable \<Rightarrow> 'v ExtendibleHashTable \<Rightarrow> bool" where
  "keeps_full e e' \<longleftrightarrow>
     globalDepth e' = globalDepth e \<and> dir e' = dir e \<and>
     length (heap e') = length (heap e) \<and>
     (\<forall>c < length (heap e). IsFull (heap e ! c) \<longrightarrow>
        map fst (list_B (heap e' ! c)) = map fst (list_B (heap e ! c)) \<and>
        size_B (heap e' ! c) = size_B (heap e ! c))"

definition stuck :: "'v ExtendibleHashTable \<Rightarrow> string \<Rightarrow> bool" where
  "stuck e key \<longleftrightarrow>
     32 \<le> globalDepth e \<and> length (dir e) = 2 ^ globalDepth e \<and>
     (\<exists>a b. bucket_of e key = Inr (a, b) \<and> key \<notin> fst ` set (list_B b) \<and> IsFull b)"

section \<open>The replacer: invariants\<close>

subsection \<open>The counter of evictable frames\<close>

lemma size_inv_New: "size_inv (NewLRUKReplacer n k)"
  by (simp add: size_inv_def NewLRUKReplacer_def tracked_evictable_def)

lemma RecordAccess_fields:
  assumes "RecordAccess r f = Inr r'"
  shows "currSize r' = currSize r" and "isEvictable r' = isEvictable r"
    and "accessCount r' = (accessCount r)(f \<mapsto> count_of r f + 1)"
    and "replacerSize r' = replacerSize r" and "k_R r' = k_R r"
  using assms
  by (auto simp: RecordAccess_def checkOverstep_def Let_def List_Remove_def
      split: if_splits sum.splits option.splits)

lemma size_inv_RecordAccess:
  assumes "size_inv r" and "RecordAccess r f = Inr r'"
  shows "size_inv r'"
proof -
  note flds = RecordAccess_fields [OF assms(2)]
  have ev: "evictable r' = evictable r"
    by (simp add: evictable_def flds fun_eq_iff)
  have sub: "dom (isEvictable r) \<subseteq> dom (accessCount r)"
    using assms(1) by (simp add: size_inv_def)
  have "tracked_evictable r' = tracked_evictable r"
  proof -
    have "evictable r f \<Longrightarrow> f \<in> dom (accessCount r)"
      using sub by (auto simp: evictable_def split: option.splits)
    then show ?thesis
      by (auto simp: tracked_evictable_def flds ev)
  qed
  then show ?thesis
    using assms(1) by (auto simp: size_inv_def flds)
qed

lemma clearFrame_tracked:
  "tracked_evictable (clearFrame r f) = tracked_evictable r - {f}"
  by (auto simp: tracked_evictable_def clearFrame_def evictable_def)

text \<open>
  Clearing an evictable frame keeps the invariant, and the decrement of \<open>currSize\<close>
  starts from a positive value.
\<close>

lemma size_inv_clearFrame:
  assumes "size_inv r" and "evictable r f"
  shows "size_inv (clearFrame r f)" and "currSize r = Suc (currSize (clearFrame r f))"
proof -
  have sub: "dom (isEvictable r) \<subseteq> dom (accessCount r)"
    and fin: "finite (tracked_evictable r)"
    and cs: "currSize r = card (tracked_evictable r)"
    using assms(1) by (simp_all add: size_inv_def tracked_evictable_def)
  have mem: "f \<in> tracked_evictable r"
    using assms(2) sub by (auto simp: tracked_evictable_def evictable_def split: option.splits)
  have pos: "0 < card (tracked_evictable r)"
    using mem fin by (auto simp: card_gt_0_iff)
  have cs': "currSize (clearFrame r f) = card (tracked_evictable r) - 1"
    by (simp add: clearFrame_def cs)
  have "card (tracked_evictable (clearFrame r f)) = card (tracked_evictable r) - 1"
    using mem fin by (simp add: clearFrame_tracked)
  moreover have "dom (isEvictable (clearFrame r f)) \<subseteq> dom (accessCount (clearFrame r f))"
    using sub by (auto simp: clearFrame_def)
  moreover have "finite (dom (accessCount (clearFrame r f)))"
    using assms(1) by (simp add: size_inv_def clearFrame_def)
  ultimately show "size_inv (clearFrame r f)"
    using cs' by (simp add: size_inv_def)
  show "currSize r = Suc (currSize (clearFrame r f))"
    using cs cs' pos by simp
qed

lemma size_inv_lists_irrelevant:
  "size_inv (r\<lparr>historyList := hl, historyMap := hm\<rparr>) = size_inv r"
  "size_inv (r\<lparr>cacheList := cl, cacheMap := cm\<rparr>) = size_inv r"
  "evictable (r\<lparr>historyList := hl, historyMap := hm\<rparr>) = evictable r"
  "evictable (r\<lparr>cacheList := cl, cacheMap := cm\<rparr>) = evictable r"
  by (simp_all add: size_inv_def tracked_evictable_def evictable_def fun_eq_iff)

lemma scan_back_Some:
  "scan_back r xs = Some x \<Longrightarrow>
     \<exists>ys zs. xs = ys @ x # zs \<and> evictable r (snd x) \<and> (\<forall>y \<in> set ys. \<not> evictable r (snd y))"
proof (induction xs)
  case Nil
  then show ?case by simp
next
  case (Cons y xs)
  show ?case
  proof (cases "evictable r (snd y)")
    case True
    with Cons.prems have "x = y" by simp
    with True show ?thesis by (intro exI [of _ "[]"] exI [of _ xs]) auto
  next
    case False
    with Cons.prems have "scan_back r xs = Some x" by simp
    from Cons.IH [OF this] obtain ys zs where
      "xs = ys @ x # zs" "evictable r (snd x)" "\<forall>y \<in> set ys. \<not> evictable r (snd y)"
      by blast
    with False show ?thesis by (intro exI [of _ "y # ys"] exI [of _ zs]) auto
  qed
qed

lemma scan_back_None:
  "scan_back r xs = None \<longleftrightarrow> (\<forall>x \<in> set xs. \<not> evictable r (snd x))"
  by (induction xs) auto

lemma scan_back_mem: "scan_back r xs = Some x \<Longrightarrow> x \<in> set xs"
  by (induction xs) (auto split: if_splits)

lemma size_inv_Evict:
  assumes "size_inv r" and "Evict r = (r', res)"
  shows "size_inv r'"
  using assms
  by (auto simp: Evict_def size_inv_lists_irrelevant
      split: if_splits option.splits prod.splits
      dest!: scan_back_Some intro!: size_inv_clearFrame(1))

lemma size_inv_Remove:
  assumes "size_inv r" and "LRUK_Remove r f = Inr r'"
  shows "size_inv r'"
  using assms
  by (auto simp: LRUK_Remove_def checkOverstep_def size_inv_lists_irrelevant
      split: if_splits option.splits sum.splits
      intro!: size_inv_clearFrame(1))

lemma size_inv_SetEvictable:
  assumes "size_inv r" and "SetEvictable r f b = Inr r'"
  shows "size_inv r'"
proof (cases "accessCount r f = None")
  case True
  with assms show ?thesis
    by (auto simp: SetEvictable_def checkOverstep_def split: if_splits)
next
  case False
  have fin: "finite (tracked_evictable r)" and cs: "currSize r = card (tracked_evictable r)"
    and sub: "dom (isEvictable r) \<subseteq> dom (accessCount r)"
    and fd: "finite (dom (accessCount r))"
    using assms(1) by (simp_all add: size_inv_def tracked_evictable_def)
  from False assms(2) have r': "r' = r\<lparr> currSize := (if b then currSize r + (if b \<noteq> evictable r f then 1 else 0)
                                   else currSize r - (if b \<noteq> evictable r f then 1 else 0)),
                      isEvictable := (isEvictable r)(f \<mapsto> b) \<rparr>"
    by (auto simp: SetEvictable_def checkOverstep_def Let_def split: if_splits)
  have te: "tracked_evictable r' = (if b then insert f (tracked_evictable r) else tracked_evictable r - {f})"
    using False by (auto simp: r' tracked_evictable_def evictable_def)
  have mem: "f \<in> tracked_evictable r \<longleftrightarrow> evictable r f"
    using False by (auto simp: tracked_evictable_def)
  have cs': "currSize r' = (if b then currSize r + (if b \<noteq> evictable r f then 1 else 0)
                                   else currSize r - (if b \<noteq> evictable r f then 1 else 0))"
    by (simp add: r')
  have "currSize r' = card (tracked_evictable r')"
  proof (cases b)
    case True
    then show ?thesis using fin mem cs by (auto simp: te cs' insert_absorb)
  next
    case False
    then show ?thesis using fin mem cs by (auto simp: te cs')
  qed
  moreover have "dom (isEvictable r') \<subseteq> dom (accessCount r')"
    using sub False by (auto simp: r')
  moreover have "finite (dom (accessCount r'))" using fd by (simp add: r')
  ultimately show ?thesis by (simp add: size_inv_def)
qed

subsection \<open>Lists and maps\<close>

lemma list_inv_New: "list_inv (NewLRUKReplacer n k)"
  by (simp add: list_inv_def NewLRUKReplacer_def)

lemma distinct_fst_filter:
  "distinct (map fst l) \<Longrightarrow> distinct (map fst (filter P l))"
  by (simp add: distinct_map_filter)

lemma fst_unique:
  "distinct (map fst l) \<Longrightarrow> (a, x) \<in> set l \<Longrightarrow> (a, y) \<in> set l \<Longrightarrow> x = y"
  by (rule eq_key_imp_eq_value)

lemma list_inv_RecordAccess:
  assumes "list_inv r" and "RecordAccess r f = Inr r'"
  shows "list_inv r'"
proof -
  let ?n = "nextElement r"
  let ?ac = "(accessCount r)(f \<mapsto> count_of r f + 1)"
  from assms(1) have
    i1: "\<And>g. accessCount r g = None \<Longrightarrow> historyMap r g = None \<and> cacheMap r g = None" and
    i2: "\<And>g c. accessCount r g = Some c \<Longrightarrow>
        (if k_R r \<le> c then historyMap r g = None \<and> cacheMap r g \<noteq> None
         else cacheMap r g = None \<and> historyMap r g \<noteq> None)" and
    i3: "\<And>a g. (a, g) \<in> set (historyList r) \<longleftrightarrow> historyMap r g = Some a" and
    i4: "\<And>a g. (a, g) \<in> set (cacheList r) \<longleftrightarrow> cacheMap r g = Some a" and
    i5: "distinct (map fst (historyList r))" and
    i6: "distinct (map fst (cacheList r))" and
    i7: "\<And>x. x \<in> set (historyList r) \<Longrightarrow> fst x < ?n" and
    i8: "\<And>x. x \<in> set (cacheList r) \<Longrightarrow> fst x < ?n"
    unfolding list_inv_def by blast+
  have fresh_h: "?n \<notin> fst ` set (historyList r)" using i7 by fastforce
  have fresh_c: "?n \<notin> fst ` set (cacheList r)" using i8 by fastforce
  consider
    (grad) e where "count_of r f + 1 = k_R r" "historyMap r f = Some e"
      "r' = r\<lparr> accessCount := ?ac,
                historyList := filter (\<lambda>x. fst x \<noteq> e) (historyList r),
                historyMap := (historyMap r)(f := None),
                cacheList := (?n, f) # cacheList r,
                cacheMap := (cacheMap r)(f \<mapsto> ?n),
                nextElement := ?n + 1 \<rparr>"
  | (cache) "count_of r f + 1 > k_R r"
      "r' = r\<lparr> accessCount := ?ac,
                cacheList := (?n, f) # (case cacheMap r f of None \<Rightarrow> cacheList r
                     | Some e \<Rightarrow> filter (\<lambda>x. fst x \<noteq> e) (cacheList r)),
                cacheMap := (cacheMap r)(f \<mapsto> ?n),
                nextElement := ?n + 1 \<rparr>"
  | (hist) "count_of r f + 1 < k_R r"
      "r' = r\<lparr> accessCount := ?ac,
                historyList := (?n, f) # (case historyMap r f of None \<Rightarrow> historyList r
                     | Some e \<Rightarrow> filter (\<lambda>x. fst x \<noteq> e) (historyList r)),
                historyMap := (historyMap r)(f \<mapsto> ?n),
                nextElement := ?n + 1 \<rparr>"
    using assms(2)
    unfolding RecordAccess_def checkOverstep_def Let_def List_Remove_def
      List_PushFront_def List_Front_def count_of_def
    by (auto split: if_splits sum.splits option.splits)
  then show ?thesis
  proof cases
    case grad
    from grad(2) i1 [of f] obtain c0 where ac: "accessCount r f = Some c0"
      by (cases "accessCount r f") auto
    with grad(1) have lt: "\<not> k_R r \<le> c0" and kk: "count_of r f + 1 = k_R r"
      by (simp_all add: count_of_def)
    from i2 [OF ac] lt have cm: "cacheMap r f = None" by simp
    have eh: "(e, f) \<in> set (historyList r)" using grad(2) i3 by simp
    have other: "\<And>a g. g \<noteq> f \<Longrightarrow> (a, g) \<in> set (historyList r) \<Longrightarrow> a \<noteq> e"
      using fst_unique [OF i5 _ eh] by blast
    have same: "\<And>a. (a, f) \<in> set (historyList r) \<Longrightarrow> a = e"
      using i3 grad(2) by simp
    have nc: "\<And>a. (a, f) \<notin> set (cacheList r)" using i4 cm by simp
    have c1: "\<forall>g. accessCount r' g = None \<longrightarrow> historyMap r' g = None \<and> cacheMap r' g = None"
      using i1 by (simp add: grad(3))
    have c2: "\<forall>g c. accessCount r' g = Some c \<longrightarrow>
        (if k_R r' \<le> c then historyMap r' g = None \<and> cacheMap r' g \<noteq> None
         else cacheMap r' g = None \<and> historyMap r' g \<noteq> None)"
      using i2 kk by (simp add: grad(3))
    have c3: "\<forall>a g. (a, g) \<in> set (historyList r') \<longleftrightarrow> historyMap r' g = Some a"
      using other same i3 by (auto simp: grad(3))
    have c4: "\<forall>a g. (a, g) \<in> set (cacheList r') \<longleftrightarrow> cacheMap r' g = Some a"
      using nc i4 by (auto simp: grad(3))
    have c5: "distinct (map fst (historyList r'))"
      using i5 by (simp add: grad(3) distinct_fst_filter)
    have c6: "distinct (map fst (cacheList r'))"
      using i6 fresh_c by (simp add: grad(3))
    have c7: "\<forall>x \<in> set (historyList r') \<union> set (cacheList r'). fst x < nextElement r'"
      using i7 i8 by (auto simp: grad(3) less_Suc_eq)
    show ?thesis
      unfolding list_inv_def using c1 c2 c3 c4 c5 c6 c7 by blast
  next
    case cache
    have ge: "accessCount r f = Some c \<Longrightarrow> k_R r \<le> c" for c
      using cache(1) by (simp add: count_of_def)
    have hm: "historyMap r f = None"
      using i1 [of f] i2 [of f] ge by (cases "accessCount r f") auto
    have nh: "\<And>a. (a, f) \<notin> set (historyList r)" using i3 hm by simp
    let ?cl = "(case cacheMap r f of None \<Rightarrow> cacheList r
                     | Some e \<Rightarrow> filter (\<lambda>x. fst x \<noteq> e) (cacheList r))"
    have sub: "set ?cl \<subseteq> set (cacheList r)" by (auto split: option.splits)
    have nf: "\<And>a. (a, f) \<notin> set ?cl"
      using i4 by (auto split: option.splits)
    have keep: "\<And>a g. g \<noteq> f \<Longrightarrow> (a, g) \<in> set ?cl \<longleftrightarrow> (a, g) \<in> set (cacheList r)"
    proof (cases "cacheMap r f")
      case None
      then show "\<And>a g. g \<noteq> f \<Longrightarrow> (a, g) \<in> set ?cl \<longleftrightarrow> (a, g) \<in> set (cacheList r)" by simp
    next
      case (Some e)
      then have "(e, f) \<in> set (cacheList r)" using i4 by simp
      from fst_unique [OF i6 _ this] Some
      show "\<And>a g. g \<noteq> f \<Longrightarrow> (a, g) \<in> set ?cl \<longleftrightarrow> (a, g) \<in> set (cacheList r)" by auto
    qed
    have dcl: "distinct (map fst ?cl)"
      using i6 by (auto split: option.splits simp: distinct_fst_filter)
    have c1: "\<forall>g. accessCount r' g = None \<longrightarrow> historyMap r' g = None \<and> cacheMap r' g = None"
      using i1 by (simp add: cache(2))
    have c2: "\<forall>g c. accessCount r' g = Some c \<longrightarrow>
        (if k_R r' \<le> c then historyMap r' g = None \<and> cacheMap r' g \<noteq> None
         else cacheMap r' g = None \<and> historyMap r' g \<noteq> None)"
      using i2 cache(1) hm by (simp add: cache(2))
    have c3: "\<forall>a g. (a, g) \<in> set (historyList r') \<longleftrightarrow> historyMap r' g = Some a"
      using i3 by (simp add: cache(2))
    have c4: "\<forall>a g. (a, g) \<in> set (cacheList r') \<longleftrightarrow> cacheMap r' g = Some a"
      using nf keep i4 by (auto simp: cache(2))
    have c5: "distinct (map fst (historyList r'))"
      using i5 by (simp add: cache(2))
    have c6: "distinct (map fst (cacheList r'))"
      using dcl fresh_c sub by (auto simp: cache(2))
    have c7: "\<forall>x \<in> set (historyList r') \<union> set (cacheList r'). fst x < nextElement r'"
      using i7 i8 sub by (auto simp: cache(2) less_Suc_eq)
    show ?thesis
      unfolding list_inv_def using c1 c2 c3 c4 c5 c6 c7 by blast
  next
    case hist
    have lt: "accessCount r f = Some c \<Longrightarrow> \<not> k_R r \<le> c" for c
      using hist(1) by (simp add: count_of_def)
    have cm: "cacheMap r f = None"
      using i1 [of f] i2 [of f] lt by (cases "accessCount r f") auto
    have nc: "\<And>a. (a, f) \<notin> set (cacheList r)" using i4 cm by simp
    let ?hl = "(case historyMap r f of None \<Rightarrow> historyList r
                     | Some e \<Rightarrow> filter (\<lambda>x. fst x \<noteq> e) (historyList r))"
    have sub: "set ?hl \<subseteq> set (historyList r)" by (auto split: option.splits)
    have nf: "\<And>a. (a, f) \<notin> set ?hl"
      using i3 by (auto split: option.splits)
    have keep: "\<And>a g. g \<noteq> f \<Longrightarrow> (a, g) \<in> set ?hl \<longleftrightarrow> (a, g) \<in> set (historyList r)"
    proof (cases "historyMap r f")
      case None
      then show "\<And>a g. g \<noteq> f \<Longrightarrow> (a, g) \<in> set ?hl \<longleftrightarrow> (a, g) \<in> set (historyList r)" by simp
    next
      case (Some e)
      then have "(e, f) \<in> set (historyList r)" using i3 by simp
      from fst_unique [OF i5 _ this] Some
      show "\<And>a g. g \<noteq> f \<Longrightarrow> (a, g) \<in> set ?hl \<longleftrightarrow> (a, g) \<in> set (historyList r)" by auto
    qed
    have dhl: "distinct (map fst ?hl)"
      using i5 by (auto split: option.splits simp: distinct_fst_filter)
    have c1: "\<forall>g. accessCount r' g = None \<longrightarrow> historyMap r' g = None \<and> cacheMap r' g = None"
      using i1 by (simp add: hist(2))
    have c2: "\<forall>g c. accessCount r' g = Some c \<longrightarrow>
        (if k_R r' \<le> c then historyMap r' g = None \<and> cacheMap r' g \<noteq> None
         else cacheMap r' g = None \<and> historyMap r' g \<noteq> None)"
      using i2 hist(1) cm by (simp add: hist(2))
    have c3: "\<forall>a g. (a, g) \<in> set (historyList r') \<longleftrightarrow> historyMap r' g = Some a"
      using nf keep i3 by (auto simp: hist(2))
    have c4: "\<forall>a g. (a, g) \<in> set (cacheList r') \<longleftrightarrow> cacheMap r' g = Some a"
      using i4 by (simp add: hist(2))
    have c5: "distinct (map fst (historyList r'))"
      using dhl fresh_h sub by (auto simp: hist(2))
    have c6: "distinct (map fst (cacheList r'))"
      using i6 by (simp add: hist(2))
    have c7: "\<forall>x \<in> set (historyList r') \<union> set (cacheList r'). fst x < nextElement r'"
      using i7 i8 sub by (auto simp: hist(2) less_Suc_eq)
    show ?thesis
      unfolding list_inv_def using c1 c2 c3 c4 c5 c6 c7 by blast
  qed
qed

lemma list_inv_flags_irrelevant:
  "list_inv (r\<lparr>currSize := c, isEvictable := m\<rparr>) = list_inv r"
  by (simp add: list_inv_def)

lemma list_inv_SetEvictable:
  assumes "list_inv r" and "SetEvictable r f b = Inr r'"
  shows "list_inv r'"
proof (cases "accessCount r f = None")
  case True
  with assms show ?thesis
    by (auto simp: SetEvictable_def checkOverstep_def split: if_splits)
next
  case False
  with assms(2) have r': "r' = r\<lparr> currSize := (if b then currSize r + (if b \<noteq> evictable r f then 1 else 0)
                                   else currSize r - (if b \<noteq> evictable r f then 1 else 0)),
                      isEvictable := (isEvictable r)(f \<mapsto> b) \<rparr>"
    by (auto simp: SetEvictable_def checkOverstep_def Let_def split: if_splits)
  show ?thesis
    unfolding r' by (rule iffD2 [OF list_inv_flags_irrelevant]) (rule assms(1))
qed

lemma list_inv_drop_history:
  assumes "list_inv r" and "historyMap r f = Some e"
  shows "list_inv (clearFrame (r\<lparr> historyList := filter (\<lambda>x. fst x \<noteq> e) (historyList r),
                                   historyMap := (historyMap r)(f := None) \<rparr>) f)"
    (is "list_inv ?r'")
proof -
  from assms(1) have
    i1: "\<And>g. accessCount r g = None \<Longrightarrow> historyMap r g = None \<and> cacheMap r g = None" and
    i2: "\<And>g c. accessCount r g = Some c \<Longrightarrow>
        (if k_R r \<le> c then historyMap r g = None \<and> cacheMap r g \<noteq> None
         else cacheMap r g = None \<and> historyMap r g \<noteq> None)" and
    i3: "\<And>a g. (a, g) \<in> set (historyList r) \<longleftrightarrow> historyMap r g = Some a" and
    i4: "\<And>a g. (a, g) \<in> set (cacheList r) \<longleftrightarrow> cacheMap r g = Some a" and
    i5: "distinct (map fst (historyList r))" and
    i6: "distinct (map fst (cacheList r))" and
    i7: "\<And>x. x \<in> set (historyList r) \<Longrightarrow> fst x < nextElement r" and
    i8: "\<And>x. x \<in> set (cacheList r) \<Longrightarrow> fst x < nextElement r"
    unfolding list_inv_def by blast+
  have cm: "cacheMap r f = None"
    using i1 [of f] i2 [of f] assms(2) by (cases "accessCount r f") (auto split: if_splits)
  have eh: "(e, f) \<in> set (historyList r)" using assms(2) i3 by simp
  have other: "\<And>a g. g \<noteq> f \<Longrightarrow> (a, g) \<in> set (historyList r) \<Longrightarrow> a \<noteq> e"
    using fst_unique [OF i5 _ eh] by blast
  have same: "\<And>a. (a, f) \<in> set (historyList r) \<Longrightarrow> a = e"
    using i3 assms(2) by simp
  have c1: "\<forall>g. accessCount ?r' g = None \<longrightarrow> historyMap ?r' g = None \<and> cacheMap ?r' g = None"
    using i1 cm by (simp add: clearFrame_def)
  have c2: "\<forall>g c. accessCount ?r' g = Some c \<longrightarrow>
        (if k_R ?r' \<le> c then historyMap ?r' g = None \<and> cacheMap ?r' g \<noteq> None
         else cacheMap ?r' g = None \<and> historyMap ?r' g \<noteq> None)"
    using i2 by (simp add: clearFrame_def)
  have c3: "\<forall>a g. (a, g) \<in> set (historyList ?r') \<longleftrightarrow> historyMap ?r' g = Some a"
    using other same i3 by (auto simp: clearFrame_def)
  have c4: "\<forall>a g. (a, g) \<in> set (cacheList ?r') \<longleftrightarrow> cacheMap ?r' g = Some a"
    using i4 by (simp add: clearFrame_def)
  have c5: "distinct (map fst (historyList ?r'))"
    using i5 by (simp add: clearFrame_def distinct_fst_filter)
  have c6: "distinct (map fst (cacheList ?r'))"
    using i6 by (simp add: clearFrame_def)
  have c7: "\<forall>x \<in> set (historyList ?r') \<union> set (cacheList ?r'). fst x < nextElement ?r'"
    using i7 i8 by (auto simp: clearFrame_def)
  show ?thesis
    unfolding list_inv_def using c1 c2 c3 c4 c5 c6 c7 by blast
qed

lemma list_inv_drop_cache:
  assumes "list_inv r" and "cacheMap r f = Some e"
  shows "list_inv (clearFrame (r\<lparr> cacheList := filter (\<lambda>x. fst x \<noteq> e) (cacheList r),
                                   cacheMap := (cacheMap r)(f := None) \<rparr>) f)"
    (is "list_inv ?r'")
proof -
  from assms(1) have
    i1: "\<And>g. accessCount r g = None \<Longrightarrow> historyMap r g = None \<and> cacheMap r g = None" and
    i2: "\<And>g c. accessCount r g = Some c \<Longrightarrow>
        (if k_R r \<le> c then historyMap r g = None \<and> cacheMap r g \<noteq> None
         else cacheMap r g = None \<and> historyMap r g \<noteq> None)" and
    i3: "\<And>a g. (a, g) \<in> set (historyList r) \<longleftrightarrow> historyMap r g = Some a" and
    i4: "\<And>a g. (a, g) \<in> set (cacheList r) \<longleftrightarrow> cacheMap r g = Some a" and
    i5: "distinct (map fst (historyList r))" and
    i6: "distinct (map fst (cacheList r))" and
    i7: "\<And>x. x \<in> set (historyList r) \<Longrightarrow> fst x < nextElement r" and
    i8: "\<And>x. x \<in> set (cacheList r) \<Longrightarrow> fst x < nextElement r"
    unfolding list_inv_def by blast+
  have hm: "historyMap r f = None"
    using i1 [of f] i2 [of f] assms(2) by (cases "accessCount r f") (auto split: if_splits)
  have ec: "(e, f) \<in> set (cacheList r)" using assms(2) i4 by simp
  have other: "\<And>a g. g \<noteq> f \<Longrightarrow> (a, g) \<in> set (cacheList r) \<Longrightarrow> a \<noteq> e"
    using fst_unique [OF i6 _ ec] by blast
  have same: "\<And>a. (a, f) \<in> set (cacheList r) \<Longrightarrow> a = e"
    using i4 assms(2) by simp
  have c1: "\<forall>g. accessCount ?r' g = None \<longrightarrow> historyMap ?r' g = None \<and> cacheMap ?r' g = None"
    using i1 hm by (simp add: clearFrame_def)
  have c2: "\<forall>g c. accessCount ?r' g = Some c \<longrightarrow>
        (if k_R ?r' \<le> c then historyMap ?r' g = None \<and> cacheMap ?r' g \<noteq> None
         else cacheMap ?r' g = None \<and> historyMap ?r' g \<noteq> None)"
    using i2 by (simp add: clearFrame_def)
  have c3: "\<forall>a g. (a, g) \<in> set (historyList ?r') \<longleftrightarrow> historyMap ?r' g = Some a"
    using i3 by (simp add: clearFrame_def)
  have c4: "\<forall>a g. (a, g) \<in> set (cacheList ?r') \<longleftrightarrow> cacheMap ?r' g = Some a"
    using other same i4 by (auto simp: clearFrame_def)
  have c5: "distinct (map fst (historyList ?r'))"
    using i5 by (simp add: clearFrame_def)
  have c6: "distinct (map fst (cacheList ?r'))"
    using i6 by (simp add: clearFrame_def distinct_fst_filter)
  have c7: "\<forall>x \<in> set (historyList ?r') \<union> set (cacheList ?r'). fst x < nextElement ?r'"
    using i7 i8 by (auto simp: clearFrame_def)
  show ?thesis
    unfolding list_inv_def using c1 c2 c3 c4 c5 c6 c7 by blast
qed

lemma list_inv_in_history:
  "list_inv r \<Longrightarrow> (e, f) \<in> set (historyList r) \<Longrightarrow> historyMap r f = Some e"
  by (simp add: list_inv_def)

lemma list_inv_in_cache:
  "list_inv r \<Longrightarrow> (e, f) \<in> set (cacheList r) \<Longrightarrow> cacheMap r f = Some e"
  by (simp add: list_inv_def)

lemma list_inv_Evict:
  assumes "list_inv r" and "Evict r = (r', res)"
  shows "list_inv r'"
proof (cases "currSize r = 0")
  case True
  with assms show ?thesis by (simp add: Evict_def)
next
  case nz: False
  show ?thesis
  proof (cases "scan_back r (rev (historyList r))")
    case (Some x)
    obtain e f where x: "x = (e, f)" by (cases x)
    from scan_back_mem [OF Some] have "(e, f) \<in> set (historyList r)" by (simp add: x)
    from list_inv_drop_history [OF assms(1) list_inv_in_history [OF assms(1) this]]
    show ?thesis using assms(2) nz Some by (simp add: Evict_def x)
  next
    case None
    show ?thesis
    proof (cases "scan_back r (rev (cacheList r))")
      case (Some x)
      obtain e f where x: "x = (e, f)" by (cases x)
      from scan_back_mem [OF Some] have "(e, f) \<in> set (cacheList r)" by (simp add: x)
      from list_inv_drop_cache [OF assms(1) list_inv_in_cache [OF assms(1) this]]
      show ?thesis using assms(2) nz None Some by (simp add: Evict_def x)
    next
      case None2: None
      with None nz assms show ?thesis by (simp add: Evict_def)
    qed
  qed
qed

lemma list_inv_Remove:
  assumes "list_inv r" and "LRUK_Remove r f = Inr r'"
  shows "list_inv r'"
  using assms
  by (auto simp: LRUK_Remove_def checkOverstep_def List_Remove_def
      split: if_splits option.splits sum.splits
      intro: list_inv_drop_history list_inv_drop_cache)

subsection \<open>Every reachable state satisfies the invariants\<close>

lemma apply_operation_reachable:
  "replacer_reachable n k r \<Longrightarrow> apply_operation r x = Inr r' \<Longrightarrow> replacer_reachable n k r'"
proof (cases x)
  case OpEvict
  assume "replacer_reachable n k r" "apply_operation r x = Inr r'"
  with OpEvict show ?thesis
    using reach_Evict [of n k r r' "snd (Evict r)"] by auto
qed (auto intro: replacer_reachable.intros)

lemma run_reachable:
  "replacer_reachable n k r \<Longrightarrow> run r xs = Inr r' \<Longrightarrow> replacer_reachable n k r'"
proof (induction xs arbitrary: r)
  case Nil
  then show ?case by simp
next
  case (Cons x xs)
  then show ?case
    by (auto split: sum.splits dest: apply_operation_reachable)
qed

lemma Evict_params: "Evict r = (r', res) \<Longrightarrow> k_R r' = k_R r \<and> replacerSize r' = replacerSize r"
  by (auto simp: Evict_def clearFrame_def split: if_splits option.splits prod.splits)

lemma SetEvictable_params:
  "SetEvictable r f b = Inr r' \<Longrightarrow> k_R r' = k_R r \<and> replacerSize r' = replacerSize r"
  by (auto simp: SetEvictable_def checkOverstep_def Let_def split: if_splits)

lemma Remove_params:
  "LRUK_Remove r f = Inr r' \<Longrightarrow> k_R r' = k_R r \<and> replacerSize r' = replacerSize r"
  by (auto simp: LRUK_Remove_def checkOverstep_def clearFrame_def List_Remove_def
      split: if_splits option.splits sum.splits)

lemma reachable_invariant:
  "replacer_reachable n k r \<Longrightarrow>
     size_inv r \<and> list_inv r \<and> k_R r = k \<and> replacerSize r = n"
proof (induction rule: replacer_reachable.induct)
  case reach_New
  show ?case by (simp add: size_inv_New list_inv_New) (simp add: NewLRUKReplacer_def)
next
  case (reach_RecordAccess r f r')
  then show ?case
    using size_inv_RecordAccess list_inv_RecordAccess RecordAccess_fields(4,5) by metis
next
  case (reach_SetEvictable r f b r')
  then show ?case
    using size_inv_SetEvictable list_inv_SetEvictable SetEvictable_params by metis
next
  case (reach_Evict r r' res)
  then show ?case
    using size_inv_Evict list_inv_Evict Evict_params by metis
next
  case (reach_Remove r f r')
  then show ?case
    using size_inv_Remove list_inv_Remove Remove_params by metis
qed

text \<open>
  \<^verbatim>\<open>SetEvictable(f, false)\<close> on an evictable frame decrements a positive counter (for
  \<^verbatim>\<open>Evict\<close> and \<^verbatim>\<open>Remove\<close> see claims C3 and C7).
\<close>

lemma SetEvictable_decrement:
  assumes "replacer_reachable n k r" and "SetEvictable r f False = Inr r'"
    and "accessCount r f \<noteq> None" and "evictable r f"
  shows "currSize r = Suc (currSize r')"
proof -
  from reachable_invariant [OF assms(1)] have si: "size_inv r" by simp
  then have fin: "finite (tracked_evictable r)" and cs: "currSize r = card (tracked_evictable r)"
    by (simp_all add: size_inv_def tracked_evictable_def)
  from assms(3,4) have "f \<in> tracked_evictable r" by (auto simp: tracked_evictable_def)
  with fin have pos: "0 < card (tracked_evictable r)" by (auto simp: card_gt_0_iff)
  from assms(2,3,4) have "currSize r' = currSize r - 1"
    by (auto simp: SetEvictable_def checkOverstep_def Let_def split: if_splits)
  with pos cs show ?thesis by simp
qed

subsection \<open>Consequences of the invariants\<close>

lemma list_inv_history_not_cache:
  assumes "list_inv r" and "historyMap r f = Some e"
  shows "cacheMap r f = None"
proof (cases "accessCount r f")
  case None
  with assms show ?thesis by (simp add: list_inv_def)
next
  case (Some c)
  with assms(1) have "if k_R r \<le> c then historyMap r f = None \<and> cacheMap r f \<noteq> None
         else cacheMap r f = None \<and> historyMap r f \<noteq> None"
    unfolding list_inv_def by blast
  with assms(2) show ?thesis by (auto split: if_splits)
qed

lemma list_inv_cache_not_history:
  assumes "list_inv r" and "cacheMap r f = Some e"
  shows "historyMap r f = None"
  using list_inv_history_not_cache [OF assms(1), of f] assms(2)
  by (cases "historyMap r f") auto

lemma list_inv_map_history:
  "list_inv r \<Longrightarrow> historyMap r f = Some e \<Longrightarrow> (e, f) \<in> set (historyList r)"
  by (simp add: list_inv_def)

lemma list_inv_map_cache:
  "list_inv r \<Longrightarrow> cacheMap r f = Some e \<Longrightarrow> (e, f) \<in> set (cacheList r)"
  by (simp add: list_inv_def)

lemma list_inv_none_history:
  "list_inv r \<Longrightarrow> historyMap r f = None \<Longrightarrow> f \<notin> snd ` set (historyList r)"
  by (auto simp: list_inv_def)

lemma list_inv_none_cache:
  "list_inv r \<Longrightarrow> cacheMap r f = None \<Longrightarrow> f \<notin> snd ` set (cacheList r)"
  by (auto simp: list_inv_def)

lemma list_inv_filter_history:
  assumes "list_inv r" and "historyMap r f = Some e"
  shows "filter (\<lambda>x. fst x \<noteq> e) (historyList r) = filter (\<lambda>x. snd x \<noteq> f) (historyList r)"
proof (rule filter_cong [OF refl])
  fix x assume x: "x \<in> set (historyList r)"
  obtain a g where ag: "x = (a, g)" by (cases x)
  from assms(1) have i3: "\<And>a g. (a, g) \<in> set (historyList r) \<longleftrightarrow> historyMap r g = Some a"
    and i5: "distinct (map fst (historyList r))"
    unfolding list_inv_def by blast+
  have eh: "(e, f) \<in> set (historyList r)" using i3 assms(2) by simp
  have "a = e \<longleftrightarrow> g = f"
    using fst_unique [OF i5 _ eh, of g] x i3 [of a g] assms(2) by (auto simp: ag)
  then show "(fst x \<noteq> e) = (snd x \<noteq> f)" by (simp add: ag)
qed

lemma list_inv_filter_cache:
  assumes "list_inv r" and "cacheMap r f = Some e"
  shows "filter (\<lambda>x. fst x \<noteq> e) (cacheList r) = filter (\<lambda>x. snd x \<noteq> f) (cacheList r)"
proof (rule filter_cong [OF refl])
  fix x assume x: "x \<in> set (cacheList r)"
  obtain a g where ag: "x = (a, g)" by (cases x)
  from assms(1) have i4: "\<And>a g. (a, g) \<in> set (cacheList r) \<longleftrightarrow> cacheMap r g = Some a"
    and i6: "distinct (map fst (cacheList r))"
    unfolding list_inv_def by blast+
  have ec: "(e, f) \<in> set (cacheList r)" using i4 assms(2) by simp
  have "a = e \<longleftrightarrow> g = f"
    using fst_unique [OF i6 _ ec, of g] x i4 [of a g] assms(2) by (auto simp: ag)
  then show "(fst x \<noteq> e) = (snd x \<noteq> f)" by (simp add: ag)
qed

lemma list_inv_absent_history:
  assumes "list_inv r" and "historyMap r f = None"
  shows "filter (\<lambda>x. snd x \<noteq> f) (historyList r) = historyList r"
  using assms by (auto simp: list_inv_def filter_id_conv)

lemma list_inv_absent_cache:
  assumes "list_inv r" and "cacheMap r f = None"
  shows "filter (\<lambda>x. snd x \<noteq> f) (cacheList r) = cacheList r"
  using assms by (auto simp: list_inv_def filter_id_conv)

lemma not_in_filter_snd: "f \<notin> snd ` set (filter (\<lambda>x. snd x \<noteq> f) l)"
  by auto

text \<open>The scan from the back finds the last evictable element of the list.\<close>

lemma scan_back_rev:
  "scan_back r (rev l) =
     (if filter (\<lambda>x. evictable r (snd x)) l = [] then None
      else Some (last (filter (\<lambda>x. evictable r (snd x)) l)))"
proof (induction l rule: rev_induct)
  case Nil
  show ?case by simp
next
  case (snoc y ys)
  show ?case
  proof (cases "evictable r (snd y)")
    case True
    then show ?thesis by simp
  next
    case False
    then show ?thesis using snoc by simp
  qed
qed

lemma scan_back_rev_None:
  "scan_back r (rev l) = None \<Longrightarrow> backmost_evictable r l = None"
  by (simp add: scan_back_rev backmost_evictable_def Let_def split: if_splits)

lemma scan_back_rev_Some:
  "scan_back r (rev l) = Some (e, f) \<Longrightarrow>
     backmost_evictable r l = Some f \<and> (e, f) \<in> set l \<and> evictable r f"
proof -
  assume a: "scan_back r (rev l) = Some (e, f)"
  from scan_back_mem [OF a] have "(e, f) \<in> set l" by simp
  moreover from scan_back_Some [OF a] have "evictable r f" by auto
  moreover from a have "backmost_evictable r l = Some f"
    by (auto simp: scan_back_rev backmost_evictable_def Let_def split: if_splits)
  ultimately show ?thesis by simp
qed

text \<open>A positive \<open>currSize\<close> means that one of the two lists holds an evictable frame.\<close>

lemma evictable_in_some_list:
  assumes "size_inv r" and "list_inv r" and "currSize r \<noteq> 0"
  shows "\<exists>x \<in> set (historyList r) \<union> set (cacheList r). evictable r (snd x)"
proof -
  from assms(1,3) have "card (tracked_evictable r) \<noteq> 0" by (simp add: size_inv_def)
  then obtain f where f: "f \<in> tracked_evictable r"
    by (cases "tracked_evictable r = {}") auto
  then obtain c where c: "accessCount r f = Some c" and ev: "evictable r f"
    by (auto simp: tracked_evictable_def)
  from assms(2) c have "historyMap r f \<noteq> None \<or> cacheMap r f \<noteq> None"
    unfolding list_inv_def by (metis (full_types))
  then obtain a where "historyMap r f = Some a \<or> cacheMap r f = Some a" by auto
  with assms(2) have "(a, f) \<in> set (historyList r) \<or> (a, f) \<in> set (cacheList r)"
    by (auto simp: list_inv_def)
  with ev show ?thesis by force
qed

lemma Evict_success:
  assumes si: "size_inv r" and li: "list_inv r" and nz: "currSize r \<noteq> 0"
  shows "\<exists>f r'. Evict r = (r', f, True) \<and> victim r = Some f \<and> evictable r f \<and>
           historyList r' = filter (\<lambda>x. snd x \<noteq> f) (historyList r) \<and>
           cacheList r' = filter (\<lambda>x. snd x \<noteq> f) (cacheList r) \<and>
           historyMap r' f = None \<and> cacheMap r' f = None \<and>
           accessCount r' f = None \<and> isEvictable r' f = None \<and>
           currSize r = Suc (currSize r')"
proof (cases "scan_back r (rev (historyList r))")
  case (Some x)
  obtain e f where x: "x = (e, f)" by (cases x)
  from scan_back_rev_Some [OF Some [unfolded x]]
  have bm: "backmost_evictable r (historyList r) = Some f"
    and mem: "(e, f) \<in> set (historyList r)" and ev: "evictable r f" by simp_all
  have hm: "historyMap r f = Some e" by (rule list_inv_in_history [OF li mem])
  have cm: "cacheMap r f = None" by (rule list_inv_history_not_cache [OF li hm])
  let ?r1 = "r\<lparr> historyList := filter (\<lambda>x. fst x \<noteq> e) (historyList r),
                 historyMap := (historyMap r)(f := None) \<rparr>"
  have E: "Evict r = (clearFrame ?r1 f, f, True)"
    using nz Some by (simp add: Evict_def x)
  have dec: "currSize r = Suc (currSize (clearFrame ?r1 f))"
    using size_inv_clearFrame(2) [of ?r1 f] si ev
    by (simp add: size_inv_lists_irrelevant clearFrame_def)
  have "victim r = Some f" by (simp add: victim_def bm)
  moreover have "historyList (clearFrame ?r1 f) = filter (\<lambda>x. snd x \<noteq> f) (historyList r)"
    using list_inv_filter_history [OF li hm] by (simp add: clearFrame_def)
  moreover have "cacheList (clearFrame ?r1 f) = filter (\<lambda>x. snd x \<noteq> f) (cacheList r)"
    using list_inv_absent_cache [OF li cm] by (simp add: clearFrame_def)
  moreover have "historyMap (clearFrame ?r1 f) f = None" "cacheMap (clearFrame ?r1 f) f = None"
    "accessCount (clearFrame ?r1 f) f = None" "isEvictable (clearFrame ?r1 f) f = None"
    using cm by (simp_all add: clearFrame_def)
  ultimately show ?thesis using E ev dec by blast
next
  case None
  from None have nh: "\<forall>x \<in> set (historyList r). \<not> evictable r (snd x)"
    by (simp add: scan_back_None)
  with evictable_in_some_list [OF si li nz]
  have "\<exists>x \<in> set (cacheList r). evictable r (snd x)" by auto
  then have "scan_back r (rev (cacheList r)) \<noteq> None"
    by (simp add: scan_back_None)
  then obtain e f where Some: "scan_back r (rev (cacheList r)) = Some (e, f)" by auto
  from scan_back_rev_Some [OF Some]
  have bm: "backmost_evictable r (cacheList r) = Some f"
    and mem: "(e, f) \<in> set (cacheList r)" and ev: "evictable r f" by simp_all
  have cm: "cacheMap r f = Some e" by (rule list_inv_in_cache [OF li mem])
  have hm: "historyMap r f = None" by (rule list_inv_cache_not_history [OF li cm])
  let ?r1 = "r\<lparr> cacheList := filter (\<lambda>x. fst x \<noteq> e) (cacheList r),
                 cacheMap := (cacheMap r)(f := None) \<rparr>"
  have E: "Evict r = (clearFrame ?r1 f, f, True)"
    using nz None Some by (simp add: Evict_def)
  have dec: "currSize r = Suc (currSize (clearFrame ?r1 f))"
    using size_inv_clearFrame(2) [of ?r1 f] si ev
    by (simp add: size_inv_lists_irrelevant clearFrame_def)
  have "victim r = Some f"
    using scan_back_rev_None [OF None] by (simp add: victim_def bm)
  moreover have "cacheList (clearFrame ?r1 f) = filter (\<lambda>x. snd x \<noteq> f) (cacheList r)"
    using list_inv_filter_cache [OF li cm] by (simp add: clearFrame_def)
  moreover have "historyList (clearFrame ?r1 f) = filter (\<lambda>x. snd x \<noteq> f) (historyList r)"
    using list_inv_absent_history [OF li hm] by (simp add: clearFrame_def)
  moreover have "historyMap (clearFrame ?r1 f) f = None" "cacheMap (clearFrame ?r1 f) f = None"
    "accessCount (clearFrame ?r1 f) f = None" "isEvictable (clearFrame ?r1 f) f = None"
    using hm by (simp_all add: clearFrame_def)
  ultimately show ?thesis using E ev dec by blast
qed

subsection \<open>The example runs\<close>

lemmas replacer_defs =
  NewLRUKReplacer_def RecordAccess_def SetEvictable_def LRUK_Remove_def Evict_def
  checkOverstep_def clearFrame_def count_of_def evictable_def
  List_Remove_def List_PushFront_def List_Front_def Let_def

lemma run_scenario: "run (NewLRUKReplacer 7 2) scenario_ops = Inr scenario"
  by (simp add: scenario_def scenario_ops_def replacer_defs)

lemma scenario_reachable: "replacer_reachable 7 2 scenario"
  by (rule run_reachable [OF reach_New run_scenario])

lemma scenario_facts:
  "replacerSize scenario = 7" "k_R scenario = 2" "currSize scenario = 2"
  "accessCount scenario 5 = None" "accessCount scenario 3 \<noteq> None" "accessCount scenario 2 \<noteq> None"
  "count_of scenario 2 = 1"
  "evictable scenario 2" "\<not> evictable scenario 3"
  by (simp_all add: scenario_def scenario_ops_def replacer_defs)

section \<open>The replacer: claims\<close>

text \<open>
  Claim C3. In every reachable state of the replacer: when \<open>currSize\<close> is 0, \<^verbatim>\<open>Evict\<close>
  returns \<open>(0, false)\<close> and changes nothing. Otherwise it succeeds and returns the
  backmost evictable frame of the history list if that list holds an evictable frame,
  and else the backmost evictable frame of the cache list; the frame it returns is
  evictable, is gone from both lists and from the four per-frame maps afterwards (the
  lists lose nothing else), and \<open>currSize\<close> has decreased by exactly one.
\<close>

theorem C3_Evict:
  assumes "replacer_reachable n k r"
  shows "(currSize r = 0 \<longrightarrow> Evict r = (r, 0, False)) \<and>
         (currSize r \<noteq> 0 \<longrightarrow>
            (\<exists>f r'. Evict r = (r', f, True) \<and> victim r = Some f \<and> evictable r f \<and>
               historyList r' = filter (\<lambda>x. snd x \<noteq> f) (historyList r) \<and>
               cacheList r' = filter (\<lambda>x. snd x \<noteq> f) (cacheList r) \<and>
               f \<notin> snd ` set (historyList r') \<and> f \<notin> snd ` set (cacheList r') \<and>
               historyMap r' f = None \<and> cacheMap r' f = None \<and>
               accessCount r' f = None \<and> isEvictable r' f = None \<and>
               currSize r = Suc (currSize r')))"
proof (intro conjI impI)
  assume "currSize r = 0"
  then show "Evict r = (r, 0, False)" by (simp add: Evict_def)
next
  assume nz: "currSize r \<noteq> 0"
  from reachable_invariant [OF assms] have si: "size_inv r" and li: "list_inv r" by simp_all
  from Evict_success [OF si li nz] obtain f r' where
    *: "Evict r = (r', f, True)" "victim r = Some f" "evictable r f"
       "historyList r' = filter (\<lambda>x. snd x \<noteq> f) (historyList r)"
       "cacheList r' = filter (\<lambda>x. snd x \<noteq> f) (cacheList r)"
       "historyMap r' f = None" "cacheMap r' f = None"
       "accessCount r' f = None" "isEvictable r' f = None"
       "currSize r = Suc (currSize r')"
    by blast
  have "f \<notin> snd ` set (historyList r')" "f \<notin> snd ` set (cacheList r')"
    unfolding *(4,5) by (rule not_in_filter_snd)+
  with * show "\<exists>f r'. Evict r = (r', f, True) \<and> victim r = Some f \<and> evictable r f \<and>
               historyList r' = filter (\<lambda>x. snd x \<noteq> f) (historyList r) \<and>
               cacheList r' = filter (\<lambda>x. snd x \<noteq> f) (cacheList r) \<and>
               f \<notin> snd ` set (historyList r') \<and> f \<notin> snd ` set (cacheList r') \<and>
               historyMap r' f = None \<and> cacheMap r' f = None \<and>
               accessCount r' f = None \<and> isEvictable r' f = None \<and>
               currSize r = Suc (currSize r')"
    by blast
qed

theorem C3_Evict_witness:
  "replacer_reachable 7 2 scenario \<and> currSize scenario \<noteq> 0 \<and>
   snd (Evict scenario) = (2, True) \<and> victim scenario = Some 2"
  using C3_Evict [OF scenario_reachable]
  by (simp add: scenario_reachable) (simp add: scenario_def scenario_ops_def victim_def backmost_evictable_def replacer_defs)

text \<open>
  Claim C4 says that a repeated \<^verbatim>\<open>RecordAccess\<close> which leaves the count of a frame below
  \<open>k\<close> does not move the frame ahead of history frames whose first access is more
  recent, so that \<^verbatim>\<open>Evict\<close> selects the evictable history frame with the earliest first
  access. The comment on \<^verbatim>\<open>historyList\<close> in the source says the same (ordered by the time
  of the first access). The program does otherwise: with \<open>k = 3\<close>, after the accesses
  1, 2 the history list is \<open>[2, 1]\<close>; the second access of frame 1 (count 2, below
  \<open>k\<close>) moves it to the front, the list is \<open>[1, 2]\<close>, and \<^verbatim>\<open>Evict\<close> returns frame 2
  although frame 1 has the earliest first access.
\<close>

theorem C4_history_reordered_by_repeat_access:
  "map snd (historyList (projr (run (NewLRUKReplacer 7 3) (take 2 reorder_ops)))) = [2, 1] \<and>
   map snd (historyList (projr (run (NewLRUKReplacer 7 3) (take 3 reorder_ops)))) = [1, 2] \<and>
   count_of (projr (run (NewLRUKReplacer 7 3) (take 3 reorder_ops))) 1 = 2 \<and>
   snd (Evict (projr (run (NewLRUKReplacer 7 3) reorder_ops))) = (2, True)"
  by (simp add: reorder_ops_def replacer_defs)

text \<open>
  Claim C5. In every state reachable by calls of \<^verbatim>\<open>RecordAccess\<close>, \<^verbatim>\<open>SetEvictable\<close>,
  \<^verbatim>\<open>Evict\<close> and \<^verbatim>\<open>Remove\<close> that do not abort, \<open>currSize\<close> is the number of tracked frames
  (keys of \<open>accessCount\<close>) whose \<open>isEvictable\<close> flag is true, and \<^verbatim>\<open>Size()\<close> returns that
  number.
\<close>

theorem C5_currSize:
  assumes "replacer_reachable n k r"
  shows "currSize r = card {f \<in> dom (accessCount r). evictable r f} \<and>
         Size r = card {f \<in> dom (accessCount r). evictable r f}"
  using reachable_invariant [OF assms]
  by (simp add: size_inv_def tracked_evictable_def Size_def)

theorem C5_currSize_witness:
  "replacer_reachable 7 2 scenario \<and> Size scenario = 2 \<and>
   card {f \<in> dom (accessCount scenario). evictable scenario f} = 2"
proof -
  have "Size scenario = 2"
    by (simp add: scenario_def scenario_ops_def Size_def replacer_defs)
  with C5_currSize [OF scenario_reachable] scenario_reachable show ?thesis by simp
qed

text \<open>
  Claim C6. \<^verbatim>\<open>checkOverstep\<close>, and with it \<^verbatim>\<open>RecordAccess\<close>, \<^verbatim>\<open>SetEvictable\<close> and \<^verbatim>\<open>Remove\<close>,
  aborts with the out-of-range error exactly when the frame id is strictly greater than
  \<open>replacerSize\<close>: the valid range is \<open>[0, replacerSize]\<close> with both ends, and an id
  equal to \<open>replacerSize\<close> passes the check.
\<close>

theorem C6_range_check:
  "(checkOverstep r f = Inl Overstep \<longleftrightarrow> replacerSize r < f) \<and>
   (RecordAccess r f = Inl Overstep \<longleftrightarrow> replacerSize r < f) \<and>
   (SetEvictable r f b = Inl Overstep \<longleftrightarrow> replacerSize r < f) \<and>
   (LRUK_Remove r f = Inl Overstep \<longleftrightarrow> replacerSize r < f) \<and>
   checkOverstep r (replacerSize r) = Inr ()"
  by (auto simp: checkOverstep_def RecordAccess_def SetEvictable_def LRUK_Remove_def
      List_Remove_def Let_def split: option.splits sum.splits if_splits)

theorem C6_range_check_witness:
  "RecordAccess (NewLRUKReplacer 7 2) 8 = Inl Overstep \<and>
   RecordAccess (NewLRUKReplacer 7 2) 7 \<noteq> Inl Overstep \<and>
   SetEvictable (NewLRUKReplacer 7 2) 8 True = Inl Overstep \<and>
   SetEvictable (NewLRUKReplacer 7 2) 7 True \<noteq> Inl Overstep \<and>
   LRUK_Remove (NewLRUKReplacer 7 2) 8 = Inl Overstep \<and>
   LRUK_Remove (NewLRUKReplacer 7 2) 7 \<noteq> Inl Overstep"
  using C6_range_check [of "NewLRUKReplacer 7 2" 8 True]
    C6_range_check [of "NewLRUKReplacer 7 2" 7 True]
  by (simp add: NewLRUKReplacer_def)

text \<open>
  Claim C7. For a frame id in range: \<^verbatim>\<open>Remove\<close> of an untracked frame returns and leaves
  the whole state as it was; \<^verbatim>\<open>Remove\<close> of a tracked frame that is not evictable aborts;
  \<^verbatim>\<open>Remove\<close> of a tracked, evictable frame (in a reachable state) returns, the frame was
  in the cache list exactly when its count had reached \<open>k\<close> and in the history list
  otherwise, it is deleted from that list and from the four per-frame maps, and
  \<open>currSize\<close> has decreased by one.
\<close>

theorem C7_Remove:
  "(f \<le> replacerSize r \<longrightarrow> accessCount r f = None \<longrightarrow> LRUK_Remove r f = Inr r) \<and>
   (f \<le> replacerSize r \<longrightarrow> accessCount r f \<noteq> None \<longrightarrow> \<not> evictable r f \<longrightarrow>
      LRUK_Remove r f = Inl CanNotRemove) \<and>
   (replacer_reachable n k r \<longrightarrow> f \<le> replacerSize r \<longrightarrow> accessCount r f \<noteq> None \<longrightarrow>
      evictable r f \<longrightarrow>
      (\<exists>r'. LRUK_Remove r f = Inr r' \<and>
         (if k_R r \<le> count_of r f
          then f \<in> snd ` set (cacheList r) \<and> f \<notin> snd ` set (historyList r)
          else f \<in> snd ` set (historyList r) \<and> f \<notin> snd ` set (cacheList r)) \<and>
         historyList r' = filter (\<lambda>x. snd x \<noteq> f) (historyList r) \<and>
         cacheList r' = filter (\<lambda>x. snd x \<noteq> f) (cacheList r) \<and>
         historyMap r' = (historyMap r)(f := None) \<and>
         cacheMap r' = (cacheMap r)(f := None) \<and>
         accessCount r' = (accessCount r)(f := None) \<and>
         isEvictable r' = (isEvictable r)(f := None) \<and>
         currSize r = Suc (currSize r')))"
proof (intro conjI impI)
  assume "f \<le> replacerSize r" "accessCount r f = None"
  then show "LRUK_Remove r f = Inr r"
    by (simp add: LRUK_Remove_def checkOverstep_def)
next
  assume "f \<le> replacerSize r" "accessCount r f \<noteq> None" "\<not> evictable r f"
  then show "LRUK_Remove r f = Inl CanNotRemove"
    by (simp add: LRUK_Remove_def checkOverstep_def)
next
  assume reach: "replacer_reachable n k r" and rng: "f \<le> replacerSize r"
    and tr: "accessCount r f \<noteq> None" and ev: "evictable r f"
  from reachable_invariant [OF reach] have si: "size_inv r" and li: "list_inv r" by simp_all
  from tr obtain c where c: "accessCount r f = Some c" by auto
  then have cnt: "count_of r f = c" by (simp add: count_of_def)
  from li c have pos: "if k_R r \<le> c then historyMap r f = None \<and> cacheMap r f \<noteq> None
         else cacheMap r f = None \<and> historyMap r f \<noteq> None"
    unfolding list_inv_def by blast
  let ?P = "\<lambda>r'. LRUK_Remove r f = Inr r' \<and>
         (if k_R r \<le> count_of r f
          then f \<in> snd ` set (cacheList r) \<and> f \<notin> snd ` set (historyList r)
          else f \<in> snd ` set (historyList r) \<and> f \<notin> snd ` set (cacheList r)) \<and>
         historyList r' = filter (\<lambda>x. snd x \<noteq> f) (historyList r) \<and>
         cacheList r' = filter (\<lambda>x. snd x \<noteq> f) (cacheList r) \<and>
         historyMap r' = (historyMap r)(f := None) \<and>
         cacheMap r' = (cacheMap r)(f := None) \<and>
         accessCount r' = (accessCount r)(f := None) \<and>
         isEvictable r' = (isEvictable r)(f := None) \<and>
         currSize r = Suc (currSize r')"
  show "\<exists>r'. ?P r'"
  proof (cases "k_R r \<le> c")
    case True
    with pos obtain e where cm: "cacheMap r f = Some e" and hm: "historyMap r f = None" by auto
    let ?r1 = "r\<lparr> cacheList := filter (\<lambda>x. fst x \<noteq> e) (cacheList r),
                   cacheMap := (cacheMap r)(f := None) \<rparr>"
    have R: "LRUK_Remove r f = Inr (clearFrame ?r1 f)"
      using rng c ev True cm by (simp add: LRUK_Remove_def checkOverstep_def cnt List_Remove_def)
    have dec: "currSize r = Suc (currSize (clearFrame ?r1 f))"
      using size_inv_clearFrame(2) [of ?r1 f] si ev
      by (simp add: size_inv_lists_irrelevant clearFrame_def)
    have inl: "f \<in> snd ` set (cacheList r)" "f \<notin> snd ` set (historyList r)"
      using list_inv_map_cache [OF li cm] list_inv_none_history [OF li hm] by force+
    have flds: "historyList (clearFrame ?r1 f) = filter (\<lambda>x. snd x \<noteq> f) (historyList r)"
      "cacheList (clearFrame ?r1 f) = filter (\<lambda>x. snd x \<noteq> f) (cacheList r)"
      "historyMap (clearFrame ?r1 f) = (historyMap r)(f := None)"
      "cacheMap (clearFrame ?r1 f) = (cacheMap r)(f := None)"
      "accessCount (clearFrame ?r1 f) = (accessCount r)(f := None)"
      "isEvictable (clearFrame ?r1 f) = (isEvictable r)(f := None)"
      using hm list_inv_filter_cache [OF li cm] list_inv_absent_history [OF li hm]
      by (simp_all add: clearFrame_def fun_upd_idem)
    have "?P (clearFrame ?r1 f)"
      using R dec inl True flds unfolding cnt by (intro conjI) simp_all
    then show ?thesis ..
  next
    case False
    with pos obtain e where hm: "historyMap r f = Some e" and cm: "cacheMap r f = None" by auto
    let ?r1 = "r\<lparr> historyList := filter (\<lambda>x. fst x \<noteq> e) (historyList r),
                   historyMap := (historyMap r)(f := None) \<rparr>"
    have R: "LRUK_Remove r f = Inr (clearFrame ?r1 f)"
      using rng c ev False hm by (simp add: LRUK_Remove_def checkOverstep_def cnt List_Remove_def)
    have dec: "currSize r = Suc (currSize (clearFrame ?r1 f))"
      using size_inv_clearFrame(2) [of ?r1 f] si ev
      by (simp add: size_inv_lists_irrelevant clearFrame_def)
    have inl: "f \<in> snd ` set (historyList r)" "f \<notin> snd ` set (cacheList r)"
      using list_inv_map_history [OF li hm] list_inv_none_cache [OF li cm] by force+
    have flds: "historyList (clearFrame ?r1 f) = filter (\<lambda>x. snd x \<noteq> f) (historyList r)"
      "cacheList (clearFrame ?r1 f) = filter (\<lambda>x. snd x \<noteq> f) (cacheList r)"
      "historyMap (clearFrame ?r1 f) = (historyMap r)(f := None)"
      "cacheMap (clearFrame ?r1 f) = (cacheMap r)(f := None)"
      "accessCount (clearFrame ?r1 f) = (accessCount r)(f := None)"
      "isEvictable (clearFrame ?r1 f) = (isEvictable r)(f := None)"
      using cm list_inv_filter_history [OF li hm] list_inv_absent_cache [OF li cm]
      by (simp_all add: clearFrame_def fun_upd_idem)
    have "?P (clearFrame ?r1 f)"
      using R dec inl False flds unfolding cnt by (intro conjI) simp_all
    then show ?thesis ..
  qed
qed

theorem C7_Remove_witness:
  "LRUK_Remove scenario 5 = Inr scenario \<and>
   LRUK_Remove scenario 3 = Inl CanNotRemove \<and>
   (\<exists>r'. LRUK_Remove scenario 2 = Inr r' \<and>
      2 \<in> snd ` set (historyList scenario) \<and>
      historyList r' = filter (\<lambda>x. snd x \<noteq> 2) (historyList scenario) \<and>
      accessCount r' = (accessCount scenario)(2 := None) \<and>
      currSize scenario = Suc (currSize r'))"
  using C7_Remove [of 5 scenario 7 2] C7_Remove [of 3 scenario 7 2]
    C7_Remove [of 2 scenario 7 2] scenario_reachable
  by (simp add: scenario_facts) blast

text \<open>
  Claim C9. In a reachable state of a replacer made with \<open>k = 1\<close>, the first
  \<^verbatim>\<open>RecordAccess\<close> of an untracked frame in range takes the branch for a count equal to
  \<open>k\<close> and panics in \<^verbatim>\<open>historyList.Remove\<close>, whose argument is the nil pointer read from
  \<open>historyMap\<close>. With \<open>k \<ge> 2\<close> the call returns. For the configurations \<open>k \<ge> 1\<close> of the
  specification the call therefore returns only when \<open>k \<ge> 2\<close>.
\<close>

theorem C9_first_access:
  assumes "replacer_reachable n k r" and "f \<le> replacerSize r" and "accessCount r f = None"
  shows "(k = 1 \<longrightarrow> count_of r f + 1 = k_R r \<and> RecordAccess r f = Inl NilPointer) \<and>
         (2 \<le> k \<longrightarrow> (\<exists>r'. RecordAccess r f = Inr r')) \<and>
         (1 \<le> k \<longrightarrow> ((\<exists>r'. RecordAccess r f = Inr r') \<longleftrightarrow> 2 \<le> k))"
proof -
  from reachable_invariant [OF assms(1)] have li: "list_inv r" and k: "k_R r = k" by simp_all
  from li assms(3) have hm: "historyMap r f = None" by (simp add: list_inv_def)
  have c0: "count_of r f = 0" using assms(3) by (simp add: count_of_def)
  have one: "k = 1 \<Longrightarrow> RecordAccess r f = Inl NilPointer"
    using assms(2,3) hm k
    by (simp add: RecordAccess_def checkOverstep_def count_of_def List_Remove_def Let_def)
  have two: "2 \<le> k \<Longrightarrow> \<exists>r'. RecordAccess r f = Inr r'"
    using assms(2,3) hm k
    by (simp add: RecordAccess_def checkOverstep_def count_of_def Let_def)
  have three: "1 \<le> k \<Longrightarrow> (\<exists>r'. RecordAccess r f = Inr r') \<longleftrightarrow> 2 \<le> k"
  proof (cases "k = 1")
    case True
    with one show ?thesis by simp
  next
    case False
    assume "1 \<le> k"
    with False have "2 \<le> k" by simp
    with two show ?thesis by simp
  qed
  show ?thesis using one two three c0 k by simp
qed

theorem C9_first_access_witness:
  "RecordAccess (NewLRUKReplacer 7 1) 3 = Inl NilPointer \<and>
   (\<exists>r'. RecordAccess (NewLRUKReplacer 7 2) 3 = Inr r')"
proof -
  have a: "replacer_reachable 7 1 (NewLRUKReplacer 7 1)" by (rule reach_New)
  have b: "replacer_reachable 7 2 (NewLRUKReplacer 7 2)" by (rule reach_New)
  have c: "(3::nat) \<le> replacerSize (NewLRUKReplacer 7 1)" "accessCount (NewLRUKReplacer 7 1) 3 = None"
    "(3::nat) \<le> replacerSize (NewLRUKReplacer 7 2)" "accessCount (NewLRUKReplacer 7 2) 3 = None"
    by (simp_all add: NewLRUKReplacer_def)
  from C9_first_access [OF a c(1,2)] C9_first_access [OF b c(3,4)] show ?thesis by simp
qed

section \<open>The hash table: lemmas\<close>

subsection \<open>The doubling loop\<close>

text \<open>
  When the loop returns, its counter has reached the length of the directory. Each
  iteration lengthens the directory by one slot, so that never happens from a counter
  below the length: the loop does not return.
\<close>

lemma double_dir_Some:
  assumes "double_dir i d = Some y"
  shows "\<not> i < length d"
proof (rule double_dir.raw_induct [where P = "\<lambda>i d y. \<not> i < length d" and i = i and d = d and y = y])
  show "double_dir i d = Some y" by fact
next
  fix f :: "nat \<Rightarrow> BucketPtr list \<Rightarrow> BucketPtr list option" and j c z
  assume IH: "\<And>j c z. f j c = Some z \<Longrightarrow> \<not> j < length c"
    and eq: "(if j < length c then f (j + 1) (c @ [c ! j]) else Some c) = Some z"
  show "\<not> j < length c"
  proof
    assume lt: "j < length c"
    with eq have "f (j + 1) (c @ [c ! j]) = Some z" by simp
    from IH [OF this] lt show False by simp
  qed
qed

lemma double_dir_diverges: "i < length d \<Longrightarrow> double_dir i d = None"
  using double_dir_Some [of i d] by (cases "double_dir i d") auto

subsection \<open>Tables with their first directory\<close>

lemma IndexOf_depth0: "globalDepth e = 0 \<Longrightarrow> IndexOf e key = 0"
  by (simp add: IndexOf_def)

lemma bucket_of_single:
  "single_bucket e \<Longrightarrow> bucket_of e key = Inr (0, heap e ! 0)"
  by (simp add: single_bucket_def bucket_of_def dir_at_def deref_def IndexOf_depth0)

lemma grow_single: "single_bucket e \<Longrightarrow> grow e key = None"
  by (simp add: grow_def bucket_of_single) (simp add: single_bucket_def double_dir_diverges)

lemma Bucket_Insert_depth: "depth_B (fst (Bucket_Insert b key value)) = depth_B b"
  by (simp add: Bucket_Insert_def)

lemma Bucket_Remove_depth: "depth_B (fst (Bucket_Remove b key)) = depth_B b"
  by (simp add: Bucket_Remove_def)

text \<open>
  On such a table \<^verbatim>\<open>Insert\<close> returns exactly when the bucket accepts the pair at once;
  otherwise the local depth equals the global depth and the directory is doubled.
\<close>

lemma Insert_single:
  assumes "single_bucket e"
  shows "Insert e key value =
           (if snd (Bucket_Insert (heap e ! 0) key value)
            then Some (Inr (e\<lparr> heap := (heap e)[0 := fst (Bucket_Insert (heap e ! 0) key value)] \<rparr>))
            else None)"
  by (subst Insert.simps)
    (simp add: insert_at_def bucket_of_single [OF assms] grow_single [OF assms])

lemma single_bucket_Insert:
  assumes "single_bucket e" and "Insert e key value = Some (Inr e')"
  shows "single_bucket e'"
proof -
  from assms(2) have "e' = e\<lparr> heap := (heap e)[0 := fst (Bucket_Insert (heap e ! 0) key value)] \<rparr>"
    unfolding Insert_single [OF assms(1)] by (simp split: if_splits)
  with assms(1) show ?thesis
    by (simp add: single_bucket_def Bucket_Insert_depth)
qed

lemma single_bucket_Remove:
  assumes "single_bucket e" and "Remove e key = Inr (e', b)"
  shows "single_bucket e'"
proof -
  from assms(2) have "e' = e\<lparr> heap := (heap e)[0 := fst (Bucket_Remove (heap e ! 0) key)] \<rparr>"
    by (simp add: Remove_def bucket_of_single [OF assms(1)])
  with assms(1) show ?thesis
    by (simp add: single_bucket_def Bucket_Remove_depth)
qed

lemma single_bucket_New: "single_bucket (NewExtendibleHashTable bs)"
  by (simp add: single_bucket_def NewExtendibleHashTable_def NewBucket_def)

lemma reachable_single_bucket: "table_reachable bs e \<Longrightarrow> single_bucket e"
  by (induction rule: table_reachable.induct)
    (auto intro: single_bucket_New single_bucket_Insert single_bucket_Remove)

lemma single_bucket_dir_inv: "single_bucket e \<Longrightarrow> dir_inv e"
  by (simp add: single_bucket_def dir_inv_def)

lemma present_single:
  "single_bucket e \<Longrightarrow> present e key \<longleftrightarrow> key \<in> fst ` set (list_B (heap e ! 0))"
  by (simp add: present_def single_bucket_def)

subsection \<open>The loops of a bucket\<close>

lemma find_loop_present: "snd (find_loop es key) \<longleftrightarrow> key \<in> fst ` set es"
  by (induction es) auto

lemma remove_loop_absent: "key \<notin> fst ` set es \<Longrightarrow> remove_loop es key = (es, False)"
  by (induction es) auto

lemma update_loop_present: "key \<in> fst ` set es \<Longrightarrow> snd (update_loop es key value)"
  by (induction es) auto

lemma update_loop_absent: "key \<notin> fst ` set es \<Longrightarrow> \<not> snd (update_loop es key value)"
  by (induction es) auto

lemma find_update_loop:
  "key \<in> fst ` set es \<Longrightarrow> find_loop (fst (update_loop es key value)) key = (Some value, True)"
  by (induction es) auto

lemma Bucket_Remove_absent:
  "key \<notin> fst ` set (list_B b) \<Longrightarrow> Bucket_Remove b key = (b, False)"
  by (simp add: Bucket_Remove_def remove_loop_absent)

subsection \<open>Operations on the bucket of a key\<close>

lemma bucket_of_Inr:
  assumes "bucket_of e key = Inr (a, b)"
  shows "dir_at e (IndexOf e key) = Inr (Some a)" and "a < length (heap e)" and "heap e ! a = b"
proof -
  from assms obtain p where p: "dir_at e (IndexOf e key) = Inr p" and d: "deref e p = Inr (a, b)"
    by (cases "dir_at e (IndexOf e key)") (simp_all add: bucket_of_def)
  from d have "p = Some a \<and> a < length (heap e) \<and> heap e ! a = b"
    by (cases p) (simp_all add: deref_def split: if_splits)
  with p show "dir_at e (IndexOf e key) = Inr (Some a)" "a < length (heap e)" "heap e ! a = b"
    by simp_all
qed

lemma bucket_of_heap_update:
  assumes "bucket_of e key = Inr (a, b)"
  shows "bucket_of (e\<lparr> heap := (heap e)[a := b'] \<rparr>) key = Inr (a, b')"
proof -
  note f = bucket_of_Inr [OF assms]
  have "dir_at (e\<lparr> heap := (heap e)[a := b'] \<rparr>) (IndexOf (e\<lparr> heap := (heap e)[a := b'] \<rparr>) key)
          = Inr (Some a)"
    using f(1) by (simp add: dir_at_def IndexOf_def split: if_splits)
  then show ?thesis using f(2) by (simp add: bucket_of_def deref_def)
qed

lemma Remove_absent:
  assumes "bucket_of e key = Inr (a, b)" and "key \<notin> fst ` set (list_B b)"
  shows "Remove e key = Inr (e, False)"
proof -
  note f = bucket_of_Inr [OF assms(1)]
  have "(heap e)[a := heap e ! a] = heap e" by (rule list_update_id)
  then have "(heap e)[a := b] = heap e" by (simp only: f(3))
  then show ?thesis
    using assms by (simp add: Remove_def Bucket_Remove_absent)
qed

lemma Insert_existing:
  assumes "bucket_of e key = Inr (a, b)" and "key \<in> fst ` set (list_B b)"
  shows "Insert e key value = Some (Inr (e\<lparr> heap := (heap e)[a := fst (Bucket_Insert b key value)] \<rparr>))"
    and "Find (e\<lparr> heap := (heap e)[a := fst (Bucket_Insert b key value)] \<rparr>) key = Inr (Some value, True)"
proof -
  have ok: "snd (Bucket_Insert b key value)"
    using assms(2) by (simp add: Bucket_Insert_def update_loop_present)
  show "Insert e key value = Some (Inr (e\<lparr> heap := (heap e)[a := fst (Bucket_Insert b key value)] \<rparr>))"
    by (subst Insert.simps) (simp add: insert_at_def assms(1) ok)
  have "bucket_of (e\<lparr> heap := (heap e)[a := fst (Bucket_Insert b key value)] \<rparr>) key
      = Inr (a, fst (Bucket_Insert b key value))"
    by (rule bucket_of_heap_update [OF assms(1)])
  then show "Find (e\<lparr> heap := (heap e)[a := fst (Bucket_Insert b key value)] \<rparr>) key = Inr (Some value, True)"
    using assms(2)
    by (simp add: Find_def Bucket_Find_def Bucket_Insert_def update_loop_present find_update_loop)
qed

lemma Find_found:
  assumes "Find e key = Inr (x, True)"
  shows "\<exists>a b. bucket_of e key = Inr (a, b) \<and> key \<in> fst ` set (list_B b)"
proof -
  from assms obtain a b where ab: "bucket_of e key = Inr (a, b)"
    and f: "Bucket_Find b key = (x, True)"
    by (cases "bucket_of e key") (auto simp: Find_def)
  from f have "snd (find_loop (list_B b) key)" by (simp add: Bucket_Find_def)
  then have "key \<in> fst ` set (list_B b)" by (simp only: find_loop_present)
  with ab show ?thesis by blast
qed

lemma Find_not_found:
  assumes "Find e key = Inr (x, False)"
  shows "\<exists>a b. bucket_of e key = Inr (a, b) \<and> key \<notin> fst ` set (list_B b)"
proof -
  from assms obtain a b where ab: "bucket_of e key = Inr (a, b)"
    and f: "Bucket_Find b key = (x, False)"
    by (cases "bucket_of e key") (auto simp: Find_def)
  from f have "\<not> snd (find_loop (list_B b) key)" by (simp add: Bucket_Find_def)
  then have "key \<notin> fst ` set (list_B b)" by (simp add: find_loop_present)
  with ab show ?thesis by blast
qed

lemma Insert_overflow_diverges:
  assumes "table_reachable bs e" and "\<not> present e key" and "IsFull (heap e ! 0)"
  shows "Insert e key value = None"
proof -
  have sb: "single_bucket e" by (rule reachable_single_bucket [OF assms(1)])
  from assms(2) have "key \<notin> fst ` set (list_B (heap e ! 0))"
    by (simp add: present_single [OF sb])
  then have "\<not> snd (update_loop (list_B (heap e ! 0)) key value)"
    by (rule update_loop_absent)
  then show ?thesis
    using assms(3) by (simp add: Insert_single [OF sb] Bucket_Insert_def)
qed

text \<open>
  What holds of the round trip: when \<^verbatim>\<open>Insert\<close> returns, \<^verbatim>\<open>Find\<close> gives the value.
\<close>

lemma find_append_new:
  "key \<notin> fst ` set es \<Longrightarrow> find_loop (es @ [(key, value)]) key = (Some value, True)"
  by (induction es) auto

lemma Bucket_Insert_then_Find:
  assumes "snd (Bucket_Insert b key value)"
  shows "Bucket_Find (fst (Bucket_Insert b key value)) key = (Some value, True)"
proof (cases "key \<in> fst ` set (list_B b)")
  case True
  then show ?thesis
    by (simp add: Bucket_Insert_def Bucket_Find_def update_loop_present find_update_loop)
next
  case False
  with assms show ?thesis
    by (simp add: Bucket_Insert_def Bucket_Find_def update_loop_absent find_append_new
        split: if_splits)
qed

lemma Insert_returns_then_Find:
  assumes "table_reachable bs e" and "Insert e key value = Some (Inr e')"
  shows "Find e' key = Inr (Some value, True)"
proof -
  have sb: "single_bucket e" by (rule reachable_single_bucket [OF assms(1)])
  have sb': "single_bucket e'" by (rule single_bucket_Insert [OF sb assms(2)])
  from assms(2) have ok: "snd (Bucket_Insert (heap e ! 0) key value)"
    and e': "e' = e\<lparr> heap := (heap e)[0 := fst (Bucket_Insert (heap e ! 0) key value)] \<rparr>"
    unfolding Insert_single [OF sb] by (simp_all split: if_splits)
  from sb have "length (heap e) = 1" by (simp add: single_bucket_def)
  then have "heap e' ! 0 = fst (Bucket_Insert (heap e ! 0) key value)"
    by (simp add: e')
  then show ?thesis
    using Bucket_Insert_then_Find [OF ok]
    by (simp add: Find_def bucket_of_single [OF sb'])
qed

subsection \<open>The example table\<close>

lemma single_bucket_table1: "single_bucket table1"
  by (simp add: single_bucket_def table1_def)

lemma Insert_first: "Insert (NewExtendibleHashTable 1) ''1'' ''a'' = Some (Inr table1)"
  by (simp add: Insert_single [OF single_bucket_New])
    (simp add: NewExtendibleHashTable_def NewBucket_def Bucket_Insert_def IsFull_def table1_def)

lemma table1_reachable: "table_reachable 1 table1"
  by (rule reach_Insert [OF reach_NewTable Insert_first])

lemma table1_present: "present table1 ''1''" "\<not> present table1 ''2''"
  by (simp_all add: present_def table1_def)

text \<open>
  At the input where \<^verbatim>\<open>Insert\<close> does not return, its later version splits the bucket
  and places the pair.
\<close>

lemma Insert_v2_places_pair:
  "Insert_v2 table1 ''2'' ''b'' = Some (Inr table2)"
  "Find table2 ''1'' = Inr (Some ''a'', True)"
  "Find table2 ''2'' = Inr (Some ''b'', True)"
  by code_simp+

subsection \<open>Operations that keep the shape of the table\<close>

text \<open>
  The slot of a key is inside a directory of length \<open>2 ^ globalDepth\<close>. \<^verbatim>\<open>Remove\<close>, the call
  of \<^verbatim>\<open>Bucket.Insert\<close> on the bucket of a key and the loop that inserts the entries of a
  split bucket again change the entries of buckets only.
\<close>

lemma IndexOf_take_bit: "IndexOf e key = take_bit (globalDepth e) (Hash32 key)"
  by (simp add: IndexOf_def flip: mask_eq_exp_minus_1 take_bit_eq_mask)

lemma IndexOf_in_range:
  assumes "length (dir e) = 2 ^ globalDepth e"
  shows "unat (IndexOf e key) < length (dir e)"
proof -
  have "unat (IndexOf e key) = take_bit (globalDepth e) (unat (Hash32 key))"
    by (simp add: IndexOf_take_bit unsigned_take_bit_eq)
  also have "\<dots> < 2 ^ globalDepth e" by simp
  finally show ?thesis by (simp add: assms)
qed

lemma dir_inv_bucket_of:
  assumes "dir_inv e"
  obtains a where "bucket_of e key = Inr (a, heap e ! a)" and "a < length (heap e)"
    and "unat (IndexOf e key) < length (dir e)" and "dir e ! unat (IndexOf e key) = Some a"
    and "depth_B (heap e ! a) \<le> globalDepth e"
proof -
  from assms have len: "length (dir e) = 2 ^ globalDepth e" by (simp add: dir_inv_def)
  have r: "unat (IndexOf e key) < length (dir e)" by (rule IndexOf_in_range [OF len])
  with assms obtain a where a: "dir e ! unat (IndexOf e key) = Some a" "a < length (heap e)"
    "depth_B (heap e ! a) \<le> globalDepth e"
    unfolding dir_inv_def by blast
  have "bucket_of e key = Inr (a, heap e ! a)"
    using r a by (simp add: bucket_of_def dir_at_def deref_def)
  with r a show ?thesis using that by blast
qed

lemma same_shape_refl: "same_shape e e"
  by (simp add: same_shape_def)

lemma same_shape_trans: "same_shape e e' \<Longrightarrow> same_shape e' e'' \<Longrightarrow> same_shape e e''"
  by (simp add: same_shape_def)

lemma same_shape_depth:
  assumes "same_shape e e'"
  shows "length (heap e') = length (heap e)"
    and "a < length (heap e) \<Longrightarrow> depth_B (heap e' ! a) = depth_B (heap e ! a)"
proof -
  from assms have m: "map depth_B (heap e') = map depth_B (heap e)" by (simp add: same_shape_def)
  then show l: "length (heap e') = length (heap e)" by (rule map_eq_imp_length_eq)
  assume a: "a < length (heap e)"
  have "depth_B (heap e' ! a) = map depth_B (heap e') ! a" using a l by simp
  also have "\<dots> = map depth_B (heap e) ! a" by (simp only: m)
  also have "\<dots> = depth_B (heap e ! a)" using a by simp
  finally show "depth_B (heap e' ! a) = depth_B (heap e ! a)" .
qed

lemma same_shape_dir_inv:
  assumes "same_shape e e'" and "dir_inv e"
  shows "dir_inv e'"
proof -
  note sd = same_shape_depth [OF assms(1)]
  from assms(1) have g: "globalDepth e' = globalDepth e" and d: "dir e' = dir e"
    by (simp_all add: same_shape_def)
  from assms(2) have
    i1: "length (dir e) = 2 ^ globalDepth e" and
    i2: "\<And>i. i < length (dir e) \<Longrightarrow> \<exists>a. dir e ! i = Some a \<and> a < length (heap e) \<and>
        depth_B (heap e ! a) \<le> globalDepth e" and
    i3: "\<And>i j a. i < length (dir e) \<Longrightarrow> j < length (dir e) \<Longrightarrow>
        dir e ! i = Some a \<Longrightarrow> dir e ! j = Some a \<Longrightarrow>
        i mod 2 ^ depth_B (heap e ! a) = j mod 2 ^ depth_B (heap e ! a)"
    unfolding dir_inv_def by blast+
  have c2: "\<exists>a. dir e' ! i = Some a \<and> a < length (heap e') \<and>
        depth_B (heap e' ! a) \<le> globalDepth e'" if "i < length (dir e')" for i
  proof -
    from that i2 [of i] obtain a where a: "dir e ! i = Some a" "a < length (heap e)"
      "depth_B (heap e ! a) \<le> globalDepth e" by (auto simp: d)
    then show ?thesis using sd(1) sd(2) [of a] by (simp add: d g)
  qed
  have c3: "i mod 2 ^ depth_B (heap e' ! a) = j mod 2 ^ depth_B (heap e' ! a)"
    if "i < length (dir e')" "j < length (dir e')" "dir e' ! i = Some a" "dir e' ! j = Some a"
    for i j a
  proof -
    from that i2 [of i] have "a < length (heap e)" by (auto simp: d)
    with i3 [of i j a] that sd(2) [of a] show ?thesis by (simp add: d)
  qed
  have c1: "length (dir e') = 2 ^ globalDepth e'" using i1 by (simp add: d g)
  show ?thesis
    unfolding dir_inv_def using c1 c2 c3 by blast
qed

lemma same_shape_heap_update:
  assumes "a < length (heap e)" and "depth_B b' = depth_B (heap e ! a)"
  shows "same_shape e (e\<lparr> heap := (heap e)[a := b'] \<rparr>)"
  using assms by (simp add: same_shape_def map_update list_update_same_conv)

lemma insert_at_shape:
  assumes "insert_at e key value = Inr (e', ok)"
  shows "same_shape e e'"
proof -
  from assms obtain a b where ab: "bucket_of e key = Inr (a, b)"
    and e': "e' = e\<lparr> heap := (heap e)[a := fst (Bucket_Insert b key value)] \<rparr>"
    by (cases "bucket_of e key") (auto simp: insert_at_def)
  note f = bucket_of_Inr [OF ab]
  show ?thesis
    unfolding e' by (rule same_shape_heap_update) (simp_all add: f Bucket_Insert_depth)
qed

lemma Remove_shape:
  assumes "Remove e key = Inr (e', r)"
  shows "same_shape e e'"
proof -
  from assms obtain a b where ab: "bucket_of e key = Inr (a, b)"
    and e': "e' = e\<lparr> heap := (heap e)[a := fst (Bucket_Remove b key)] \<rparr>"
    by (cases "bucket_of e key") (auto simp: Remove_def)
  note f = bucket_of_Inr [OF ab]
  show ?thesis
    unfolding e' by (rule same_shape_heap_update) (simp_all add: f Bucket_Remove_depth)
qed

lemma insert_at_total:
  assumes "dir_inv e"
  shows "\<exists>e' ok. insert_at e key value = Inr (e', ok)"
proof -
  from dir_inv_bucket_of [OF assms, of key] obtain a where "bucket_of e key = Inr (a, heap e ! a)"
    by blast
  then show ?thesis by (simp add: insert_at_def)
qed

lemma reinsert_shape:
  assumes "dir_inv e"
  shows "\<exists>e'. reinsert e items = Inr e' \<and> same_shape e e'"
  using assms
proof (induction items arbitrary: e)
  case Nil
  then show ?case by (simp add: same_shape_refl)
next
  case (Cons entry items)
  from insert_at_total [OF Cons.prems] obtain e1 ok where
    i: "insert_at e (fst entry) (snd entry) = Inr (e1, ok)" by blast
  have s1: "same_shape e e1" by (rule insert_at_shape [OF i])
  have "dir_inv e1" by (rule same_shape_dir_inv [OF s1 Cons.prems])
  from Cons.IH [OF this] obtain e' where "reinsert e1 items = Inr e'" "same_shape e1 e'" by blast
  with i s1 show ?case by (auto intro: same_shape_trans)
qed

subsection \<open>The loop that moves the slots\<close>

lemma mask_test_bit:
  assumes "d < 32"
  shows "(word_of_nat i :: 32 word) AND push_bit d 1 = 0 \<longleftrightarrow> \<not> bit i d"
proof -
  have "(word_of_nat i :: 32 word) AND push_bit d 1 = 0 \<longleftrightarrow> \<not> bit (word_of_nat i :: 32 word) d"
    by (simp add: and_exp_eq_0_iff_not_bit)
  also have "\<dots> \<longleftrightarrow> \<not> bit i d"
    using assms by (simp add: bit_of_nat_iff)
  finally show ?thesis .
qed

lemma mod_Suc_depth:
  fixes i j :: nat
  assumes "i mod 2 ^ d = j mod 2 ^ d" and "bit i d \<longleftrightarrow> bit j d"
  shows "i mod 2 ^ Suc d = j mod 2 ^ Suc d"
proof -
  have i: "take_bit (Suc d) i = 2 ^ d * of_bool (bit i d) + take_bit d i"
    by (rule take_bit_Suc_from_most)
  have j: "take_bit (Suc d) j = 2 ^ d * of_bool (bit j d) + take_bit d j"
    by (rule take_bit_Suc_from_most)
  from assms(1) have "take_bit d i = take_bit d j" by (simp only: take_bit_eq_mod)
  with assms(2) have "take_bit (Suc d) i = take_bit (Suc d) j" by (simp only: i j)
  then show ?thesis by (simp only: take_bit_eq_mod)
qed

lemma mod_depth_bit:
  fixes i j :: nat
  assumes "i mod 2 ^ Suc d = j mod 2 ^ Suc d"
  shows "bit i d \<longleftrightarrow> bit j d"
proof -
  from assms have "take_bit (Suc d) i = take_bit (Suc d) j" by (simp add: take_bit_eq_mod)
  then have "bit (take_bit (Suc d) i) d \<longleftrightarrow> bit (take_bit (Suc d) j) d" by simp
  then show ?thesis by (simp add: bit_take_bit_iff)
qed

lemma repoint_prefix:
  assumes "n \<le> length d"
  shows "length (foldl (repoint_step t m b0 b1) d [0 ..< n]) = length d \<and>
         (\<forall>i < length d. foldl (repoint_step t m b0 b1) d [0 ..< n] ! i =
            (if i < n \<and> d ! i = t
             then (if (word_of_nat i :: 32 word) AND m = 0 then b0 else b1)
             else d ! i))"
  using assms
proof (induction n)
  case 0
  show ?case by simp
next
  case (Suc n)
  let ?r = "foldl (repoint_step t m b0 b1) d [0 ..< n]"
  from Suc have len: "length ?r = length d"
    and nth: "\<And>i. i < length d \<Longrightarrow> ?r ! i =
            (if i < n \<and> d ! i = t
             then (if (word_of_nat i :: 32 word) AND m = 0 then b0 else b1)
             else d ! i)"
    by simp_all
  from Suc.prems have n: "n < length d" by simp
  have rn: "?r ! n = d ! n" using nth [OF n] by simp
  let ?v = "\<lambda>i. if (word_of_nat i :: 32 word) AND m = 0 then b0 else b1"
  let ?r' = "if d ! n = t then ?r[n := ?v n] else ?r"
  have step: "foldl (repoint_step t m b0 b1) d [0 ..< Suc n] = ?r'"
    by (simp add: repoint_step_def rn)
  have l': "length ?r' = length d" by (simp add: len)
  have n': "?r' ! i = (if i < Suc n \<and> d ! i = t then ?v i else d ! i)" if "i < length d" for i
  proof (cases "i = n")
    case True
    then show ?thesis using n by (simp add: len rn)
  next
    case False
    then have "?r' ! i = ?r ! i" by simp
    also have "\<dots> = (if i < n \<and> d ! i = t then ?v i else d ! i)" by (rule nth [OF that])
    also have "\<dots> = (if i < Suc n \<and> d ! i = t then ?v i else d ! i)"
      using False by (simp add: less_Suc_eq)
    finally show ?thesis .
  qed
  show ?case unfolding step using l' n' by blast
qed

lemma repoint_eq_fold:
  "repoint d t m b0 b1 =
     foldl (repoint_step t m b0 b1) d [0 ..< unat (word_of_nat (length d) :: 32 word)]"
  by (simp add: repoint_def repoint_step_def [abs_def])

lemma repoint_small:
  assumes "length d < 2 ^ 32"
  shows "length (repoint d t m b0 b1) = length d"
    and "i < length d \<Longrightarrow> repoint d t m b0 b1 ! i =
            (if d ! i = t then (if (word_of_nat i :: 32 word) AND m = 0 then b0 else b1) else d ! i)"
proof -
  have "unat (word_of_nat (length d) :: 32 word) = length d mod 2 ^ 32"
    by (simp only: unat_of_nat) simp
  with assms have n: "unat (word_of_nat (length d) :: 32 word) = length d" by simp
  from repoint_prefix [of "length d" d t m b0 b1]
  show "length (repoint d t m b0 b1) = length d"
    and "i < length d \<Longrightarrow> repoint d t m b0 b1 ! i =
            (if d ! i = t then (if (word_of_nat i :: 32 word) AND m = 0 then b0 else b1) else d ! i)"
    by (simp_all add: repoint_eq_fold n)
qed

lemma repoint_large:
  assumes "length d = 2 ^ g" and "32 \<le> g"
  shows "repoint d t m b0 b1 = d"
proof -
  have "unat (word_of_nat (length d) :: 32 word) = length d mod 2 ^ 32"
    by (simp only: unat_of_nat) simp
  moreover have "(2::nat) ^ 32 dvd 2 ^ g" using assms(2) by (rule le_imp_power_dvd)
  ultimately have "unat (word_of_nat (length d) :: 32 word) = 0"
    by (simp add: assms(1) mod_eq_0_iff_dvd)
  then show ?thesis by (simp only: repoint_eq_fold) simp
qed

subsection \<open>One split\<close>

text \<open>
  In a table that satisfies the invariant, with a global depth below 32, the splitting
  part of the loop body (everything after the doubling of the directory) turns the
  slots of the bucket of the key into slots of the two new buckets, by the bit
  \<open>localDepth\<close> of their indices, and keeps the invariant.
\<close>

lemma split_step:
  assumes inv: "dir_inv e" and g32: "globalDepth e < 32"
    and bo: "bucket_of e key = Inr (a, b)" and dlt: "depth_B b < globalDepth e"
  shows "\<exists>e2. split e key = Inr e2 \<and> dir_inv e2 \<and>
           globalDepth e2 = globalDepth e \<and> numBuckets e2 = numBuckets e + 1 \<and>
           length (dir e2) = length (dir e) \<and>
           (\<forall>i < length (dir e). dir e2 ! i =
              (if dir e ! i = Some a
               then Some (length (heap e) + (if bit i (depth_B b) then 1 else 0))
               else dir e ! i)) \<and>
           depth_B (heap e2 ! length (heap e)) = depth_B b + 1 \<and>
           depth_B (heap e2 ! (length (heap e) + 1)) = depth_B b + 1"
proof -
  let ?g = "globalDepth e" and ?d = "depth_B b" and ?n = "length (heap e)"
  note f = bucket_of_Inr [OF bo]
  from inv have
    i1: "length (dir e) = 2 ^ ?g" and
    i2: "\<And>i. i < length (dir e) \<Longrightarrow> \<exists>c. dir e ! i = Some c \<and> c < ?n \<and>
        depth_B (heap e ! c) \<le> ?g" and
    i3: "\<And>i j c. i < length (dir e) \<Longrightarrow> j < length (dir e) \<Longrightarrow>
        dir e ! i = Some c \<Longrightarrow> dir e ! j = Some c \<Longrightarrow>
        i mod 2 ^ depth_B (heap e ! c) = j mod 2 ^ depth_B (heap e ! c)"
    unfolding dir_inv_def by blast+
  have d32: "?d < 32" using dlt g32 by simp
  have "(2::nat) ^ ?g < 2 ^ 32"
    using g32 by (intro power_strict_increasing) simp_all
  then have small: "length (dir e) < 2 ^ 32" by (simp only: i1)
  let ?tb = "b\<lparr> depth_B := ?d + 1 \<rparr>"
  let ?nb = "NewBucket (bucketSize e) (?d + 1) :: 'a Bucket"
  let ?heap2 = "(heap e)[a := ?tb] @ [?nb, ?nb]"
  let ?m = "push_bit ?d (1 :: 32 word)"
  let ?dir = "repoint (dir e) (Some a) ?m (Some ?n) (Some (?n + 1))"
  let ?e1 = "e\<lparr> heap := ?heap2, numBuckets := numBuckets e + 1, dir := ?dir \<rparr>"
  have sp: "split e key = reinsert ?e1 (list_B ?tb)"
    by (simp add: split_def bo Let_def)
  have ldir: "length ?dir = length (dir e)" by (rule repoint_small(1) [OF small])
  have ndir: "?dir ! i = (if dir e ! i = Some a
               then Some (?n + (if bit i ?d then 1 else 0)) else dir e ! i)"
    if "i < length (dir e)" for i
    using repoint_small(2) [OF small that, of "Some a" ?m "Some ?n" "Some (?n + 1)"]
    using mask_test_bit [OF d32, of i] by (simp add: push_bit_of_1)
  have h_old: "?heap2 ! c = heap e ! c" if "c < ?n" "c \<noteq> a" for c
    using that by (simp add: nth_append)
  have h_new: "depth_B (?heap2 ! ?n) = ?d + 1" "depth_B (?heap2 ! (?n + 1)) = ?d + 1"
    by (simp_all add: nth_append NewBucket_def)
  have lh: "length ?heap2 = ?n + 2" by simp
  have c1: "length (dir ?e1) = 2 ^ globalDepth ?e1" using ldir i1 by simp
  have c2: "\<exists>c. dir ?e1 ! i = Some c \<and> c < length (heap ?e1) \<and>
        depth_B (heap ?e1 ! c) \<le> globalDepth ?e1" if "i < length (dir ?e1)" for i
  proof -
    from that ldir have i: "i < length (dir e)" by simp
    show ?thesis
    proof (cases "dir e ! i = Some a")
      case True
      then show ?thesis using ndir [OF i] h_new dlt lh by (cases "bit i ?d") simp_all
    next
      case False
      from i2 [OF i] obtain c where c: "dir e ! i = Some c" "c < ?n" "depth_B (heap e ! c) \<le> ?g"
        by blast
      with False have "c \<noteq> a" by auto
      with c h_old [of c] ndir [OF i] False lh show ?thesis by simp
    qed
  qed
  have c3: "i mod 2 ^ depth_B (heap ?e1 ! c) = j mod 2 ^ depth_B (heap ?e1 ! c)"
    if "i < length (dir ?e1)" "j < length (dir ?e1)" "dir ?e1 ! i = Some c" "dir ?e1 ! j = Some c"
    for i j c
  proof -
    from that ldir have i: "i < length (dir e)" and j: "j < length (dir e)" by simp_all
    from that have ci: "?dir ! i = Some c" and cj: "?dir ! j = Some c" by simp_all
    from i2 [OF i] obtain x where x: "dir e ! i = Some x" "x < ?n" by blast
    from i2 [OF j] obtain y where y: "dir e ! j = Some y" "y < ?n" by blast
    show ?thesis
    proof (cases "c < ?n")
      case True
      from ci ndir [OF i] True have xi: "dir e ! i = Some c" "c \<noteq> a"
        by (auto split: if_splits)
      from cj ndir [OF j] True have yj: "dir e ! j = Some c"
        by (auto split: if_splits)
      from i3 [OF i j xi(1) yj] h_old [OF True xi(2)] show ?thesis by simp
    next
      case False
      from ci ndir [OF i] False x have ai: "dir e ! i = Some a" and ci': "c = ?n + (if bit i ?d then 1 else 0)"
        by (auto split: if_splits)
      from cj ndir [OF j] False y have aj: "dir e ! j = Some a" and cj': "c = ?n + (if bit j ?d then 1 else 0)"
        by (auto split: if_splits)
      from ci' cj' have bits: "bit i ?d \<longleftrightarrow> bit j ?d" by (auto split: if_splits)
      from i3 [OF i j ai aj] have "i mod 2 ^ ?d = j mod 2 ^ ?d" by (simp add: f(3))
      from mod_Suc_depth [OF this bits] have eq: "i mod 2 ^ Suc ?d = j mod 2 ^ Suc ?d" .
      have "depth_B (heap ?e1 ! c) = Suc ?d"
        using ci' h_new by (cases "bit i ?d") simp_all
      with eq show ?thesis by simp
    qed
  qed
  have inv1: "dir_inv ?e1"
    unfolding dir_inv_def using c1 c2 c3 by blast
  from reinsert_shape [OF inv1, of "list_B ?tb"] obtain e2 where
    r: "reinsert ?e1 (list_B ?tb) = Inr e2" and s: "same_shape ?e1 e2" by blast
  have inv2: "dir_inv e2" by (rule same_shape_dir_inv [OF s inv1])
  note sd = same_shape_depth [OF s]
  from s have g2: "globalDepth e2 = ?g" and nb2: "numBuckets e2 = numBuckets e + 1"
    and d2: "dir e2 = ?dir"
    by (simp_all add: same_shape_def)
  have "depth_B (heap e2 ! ?n) = ?d + 1" "depth_B (heap e2 ! (?n + 1)) = ?d + 1"
    using sd(2) [of ?n] sd(2) [of "?n + 1"] h_new by simp_all
  with sp r inv2 g2 nb2 d2 ldir ndir show ?thesis by simp
qed

subsection \<open>Tables with a global depth of 32 or more\<close>

lemma update_loop_keys: "map fst (fst (update_loop es key value)) = map fst es"
  by (induction es) auto

lemma update_loop_snd: "snd (update_loop es key value) \<longleftrightarrow> key \<in> fst ` set es"
  using update_loop_present [of key es "value"] update_loop_absent [of key es "value"] by blast

lemma Bucket_Insert_full:
  assumes "IsFull b"
  shows "map fst (list_B (fst (Bucket_Insert b key value))) = map fst (list_B b)"
    and "size_B (fst (Bucket_Insert b key value)) = size_B b"
  using assms by (simp_all add: Bucket_Insert_def update_loop_keys)

lemma Bucket_Insert_refused:
  "\<not> snd (Bucket_Insert b key value) \<longleftrightarrow> key \<notin> fst ` set (list_B b) \<and> IsFull b"
  by (simp add: Bucket_Insert_def update_loop_snd)

lemma Bucket_Insert_refused_same:
  "\<not> snd (Bucket_Insert b key value) \<Longrightarrow> fst (Bucket_Insert b key value) = b"
  by (simp add: Bucket_Insert_def split: if_splits)

lemma IsFull_keys:
  "map fst (list_B b') = map fst (list_B b) \<Longrightarrow> size_B b' = size_B b \<Longrightarrow> IsFull b \<Longrightarrow> IsFull b'"
  by (metis IsFull_def length_map)

lemma keeps_full_refl: "keeps_full e e"
  by (simp add: keeps_full_def)

lemma keeps_full_trans:
  assumes "keeps_full e e'" and "keeps_full e' e''"
  shows "keeps_full e e''"
proof -
  have "map fst (list_B (heap e'' ! c)) = map fst (list_B (heap e ! c)) \<and>
        size_B (heap e'' ! c) = size_B (heap e ! c)"
    if c: "c < length (heap e)" and full: "IsFull (heap e ! c)" for c
  proof -
    from assms(1) c full have 1: "map fst (list_B (heap e' ! c)) = map fst (list_B (heap e ! c))"
      "size_B (heap e' ! c) = size_B (heap e ! c)" "c < length (heap e')"
      by (simp_all add: keeps_full_def)
    from IsFull_keys [OF 1(1,2) full] have "IsFull (heap e' ! c)" .
    with assms(2) 1(3) have "map fst (list_B (heap e'' ! c)) = map fst (list_B (heap e' ! c))"
      "size_B (heap e'' ! c) = size_B (heap e' ! c)"
      by (simp_all add: keeps_full_def)
    with 1 show ?thesis by simp
  qed
  with assms show ?thesis by (simp add: keeps_full_def)
qed

lemma insert_at_keeps_full:
  assumes "insert_at e key value = Inr (e', ok)"
  shows "keeps_full e e'"
proof -
  from assms obtain a b where ab: "bucket_of e key = Inr (a, b)"
    and e': "e' = e\<lparr> heap := (heap e)[a := fst (Bucket_Insert b key value)] \<rparr>"
    by (cases "bucket_of e key") (auto simp: insert_at_def)
  note f = bucket_of_Inr [OF ab]
  show ?thesis
    unfolding keeps_full_def e'
    using f(2,3) Bucket_Insert_full [of b key "value"]
    by (auto simp: nth_list_update)
qed

lemma reinsert_keeps_full:
  "reinsert e items = Inr e' \<Longrightarrow> keeps_full e e'"
proof (induction items arbitrary: e)
  case Nil
  then show ?case by (simp add: keeps_full_refl)
next
  case (Cons entry items)
  from Cons.prems obtain r where i: "insert_at e (fst entry) (snd entry) = Inr r"
    and rest: "reinsert (fst r) items = Inr e'"
    by (cases "insert_at e (fst entry) (snd entry)") auto
  from i have "keeps_full e (fst r)" by (cases r) (auto dest: insert_at_keeps_full)
  with Cons.IH [OF rest] show ?case by (rule keeps_full_trans [rotated])
qed

lemma dir_at_same:
  "globalDepth e' = globalDepth e \<Longrightarrow> dir e' = dir e \<Longrightarrow>
   dir_at e' (IndexOf e' key) = dir_at e (IndexOf e key)"
  by (simp add: dir_at_def IndexOf_def)

lemma keeps_full_bucket_of:
  assumes "keeps_full e e'" and "bucket_of e key = Inr (a, b)"
  shows "bucket_of e' key = Inr (a, heap e' ! a)"
proof -
  note f = bucket_of_Inr [OF assms(2)]
  from assms(1) have "globalDepth e' = globalDepth e" "dir e' = dir e"
    and a: "a < length (heap e')"
    using f(2) by (simp_all add: keeps_full_def)
  from dir_at_same [OF this(1,2), of key] f(1)
  have "dir_at e' (IndexOf e' key) = Inr (Some a)" by simp
  with a show ?thesis by (simp add: bucket_of_def deref_def)
qed

lemma stuck_split:
  assumes "stuck e key" and "split e key = Inr e2"
  shows "stuck e2 key"
proof -
  from assms(1) obtain a b where g: "32 \<le> globalDepth e" and len: "length (dir e) = 2 ^ globalDepth e"
    and bo: "bucket_of e key = Inr (a, b)" and absent: "key \<notin> fst ` set (list_B b)"
    and full: "IsFull b"
    unfolding stuck_def by blast
  note f = bucket_of_Inr [OF bo]
  let ?tb = "b\<lparr> depth_B := depth_B b + 1 \<rparr>"
  let ?heap2 = "(heap e)[a := ?tb] @
       [NewBucket (bucketSize e) (depth_B b + 1), NewBucket (bucketSize e) (depth_B b + 1)]"
  let ?e1 = "e\<lparr> heap := ?heap2, numBuckets := numBuckets e + 1, dir := dir e \<rparr>"
  have sp: "split e key = reinsert ?e1 (list_B ?tb)"
    by (simp add: split_def bo Let_def repoint_large [OF len g])
  with assms(2) have "reinsert ?e1 (list_B ?tb) = Inr e2" by simp
  from reinsert_keeps_full [OF this] have k: "keeps_full ?e1 e2" .
  have a1: "a < length (heap ?e1)" using f(2) by simp
  have tb: "heap ?e1 ! a = ?tb" using f(2) by (simp add: nth_append)
  have ftb: "IsFull ?tb" using full by (simp add: IsFull_def)
  from k a1 tb ftb have keys: "map fst (list_B (heap e2 ! a)) = map fst (list_B b)"
    and sz: "size_B (heap e2 ! a) = size_B b"
    by (simp_all add: keeps_full_def)
  have full2: "IsFull (heap e2 ! a)" by (rule IsFull_keys [OF keys sz full])
  have "set (map fst (list_B (heap e2 ! a))) = set (map fst (list_B b))" by (simp only: keys)
  with absent have absent2: "key \<notin> fst ` set (list_B (heap e2 ! a))" by simp
  have "dir_at ?e1 (IndexOf ?e1 key) = dir_at e (IndexOf e key)"
    by (rule dir_at_same) simp_all
  with f(1) have "dir_at ?e1 (IndexOf ?e1 key) = Inr (Some a)" by simp
  with a1 tb have bo1: "bucket_of ?e1 key = Inr (a, ?tb)"
    by (simp add: bucket_of_def deref_def)
  have bo2: "bucket_of e2 key = Inr (a, heap e2 ! a)" by (rule keeps_full_bucket_of [OF k bo1])
  from k have "globalDepth e2 = globalDepth e" "dir e2 = dir e" by (simp_all add: keeps_full_def)
  with g len bo2 absent2 full2 show ?thesis unfolding stuck_def by auto
qed

lemma stuck_insert_at:
  assumes "stuck e key"
  shows "\<exists>e1. insert_at e key value = Inr (e1, False)"
proof -
  from assms obtain a b where bo: "bucket_of e key = Inr (a, b)"
    and "key \<notin> fst ` set (list_B b)" "IsFull b"
    unfolding stuck_def by blast
  then have "\<not> snd (Bucket_Insert b key value)" by (simp add: Bucket_Insert_refused)
  then show ?thesis by (simp add: insert_at_def bo)
qed

lemma grow_cases:
  assumes "bucket_of e key = Inr (a, b)" and "length (dir e) = 2 ^ globalDepth e"
  shows "grow e key = (if depth_B b = globalDepth e then None else Some (Inr e))"
proof -
  have "0 < length (dir e)" by (simp add: assms(2))
  then have "double_dir 0 (dir e) = None" by (rule double_dir_diverges)
  then show ?thesis by (simp add: grow_def assms(1))
qed

subsection \<open>The invariant is preserved\<close>

lemma dir_inv_refused_stuck:
  assumes "dir_inv e" and "32 \<le> globalDepth e"
    and "bucket_of e key = Inr (a, b)" and "\<not> snd (Bucket_Insert b key value)"
  shows "stuck e key"
  using assms unfolding stuck_def
  by (auto simp: dir_inv_def Bucket_Insert_refused)

lemma Insert_step:
  assumes J: "dir_inv e \<or> stuck e key"
    and body: "(case insert_at e key value of Inl err \<Rightarrow> Some (Inl err)
      | Inr r \<Rightarrow>
          if snd r then Some (Inr (fst r))
          else (case grow e key of None \<Rightarrow> None
                | Some (Inl err) \<Rightarrow> Some (Inl err)
                | Some (Inr e1) \<Rightarrow>
                    (case split e1 key of Inl err \<Rightarrow> Some (Inl err)
                     | Inr e2 \<Rightarrow> f e2 key value))) = Some y"
  shows "(\<exists>e1. insert_at e key value = Inr (e1, True) \<and> y = Inr e1 \<and> dir_inv e \<and> dir_inv e1) \<or>
         (\<exists>err. y = Inl err) \<or>
         (\<exists>e2. f e2 key value = Some y \<and> (dir_inv e2 \<or> stuck e2 key))"
proof -
  from J obtain a b where bo: "bucket_of e key = Inr (a, b)"
    and len: "length (dir e) = 2 ^ globalDepth e"
  proof
    assume d: "dir_inv e"
    from dir_inv_bucket_of [OF d, of key] obtain a where "bucket_of e key = Inr (a, heap e ! a)"
      by blast
    moreover from d have "length (dir e) = 2 ^ globalDepth e" by (simp add: dir_inv_def)
    ultimately show ?thesis using that by blast
  next
    assume "stuck e key"
    then show ?thesis using that unfolding stuck_def by blast
  qed
  let ?e1 = "e\<lparr> heap := (heap e)[a := fst (Bucket_Insert b key value)] \<rparr>"
  have ia: "insert_at e key value = Inr (?e1, snd (Bucket_Insert b key value))"
    by (simp add: insert_at_def bo)
  show ?thesis
  proof (cases "snd (Bucket_Insert b key value)")
    case True
    with body ia have y: "y = Inr ?e1" by simp
    from True have "\<not> stuck e key"
      using bo Bucket_Insert_refused [of b key "value"] by (auto simp: stuck_def)
    with J have d: "dir_inv e" by simp
    have "dir_inv ?e1"
      by (rule same_shape_dir_inv [OF insert_at_shape [OF ia] d])
    with ia True y d show ?thesis by simp
  next
    case False
    note gc = grow_cases [OF bo len]
    show ?thesis
    proof (cases "depth_B b = globalDepth e")
      case True
      with body ia False gc show ?thesis by simp
    next
      case ne: False
      with body ia False gc have sp: "(case split e key of Inl err \<Rightarrow> Some (Inl err)
                     | Inr e2 \<Rightarrow> f e2 key value) = Some y"
        by simp
      show ?thesis
      proof (cases "split e key")
        case (Inl err)
        with sp show ?thesis by auto
      next
        case (Inr e2)
        with sp have fy: "f e2 key value = Some y" by simp
        have "dir_inv e2 \<or> stuck e2 key"
        proof (cases "stuck e key")
          case True
          from stuck_split [OF True Inr] show ?thesis by simp
        next
          case ns: False
          with J have d: "dir_inv e" by simp
          show ?thesis
          proof (cases "globalDepth e < 32")
            case True
            from dir_inv_bucket_of [OF d, of key] bo have "depth_B b \<le> globalDepth e"
              by (auto elim!: dir_inv_bucket_of)
            with ne have "depth_B b < globalDepth e" by simp
            from split_step [OF d True bo this] Inr show ?thesis by auto
          next
            case big: False
            then have "32 \<le> globalDepth e" by simp
            from dir_inv_refused_stuck [OF d this bo False] ns show ?thesis by simp
          qed
        qed
        with fy show ?thesis by blast
      qed
    qed
  qed
qed

lemma Insert_dir_inv_aux:
  assumes "Insert e key value = Some y"
  shows "(dir_inv e \<or> stuck e key) \<longrightarrow> (\<forall>e'. y = Inr e' \<longrightarrow> dir_inv e')"
proof (rule Insert.raw_induct
    [where P = "\<lambda>e key value y. (dir_inv e \<or> stuck e key) \<longrightarrow> (\<forall>e'. y = Inr e' \<longrightarrow> dir_inv e')"
       and e = e and key = key and y = y])
  show "Insert e key value = Some y" by fact
next
  fix f :: "'a ExtendibleHashTable \<Rightarrow> string \<Rightarrow> 'a \<Rightarrow> (error + 'a ExtendibleHashTable) option"
    and e key "value" y
  assume IH: "\<And>e key value y. f e key value = Some y \<Longrightarrow>
      (dir_inv e \<or> stuck e key) \<longrightarrow> (\<forall>e'. y = Inr e' \<longrightarrow> dir_inv e')"
    and body: "(case insert_at e key value of Inl err \<Rightarrow> Some (Inl err)
      | Inr r \<Rightarrow>
          if snd r then Some (Inr (fst r))
          else (case grow e key of None \<Rightarrow> None
                | Some (Inl err) \<Rightarrow> Some (Inl err)
                | Some (Inr e1) \<Rightarrow>
                    (case split e1 key of Inl err \<Rightarrow> Some (Inl err)
                     | Inr e2 \<Rightarrow> f e2 key value))) = Some y"
  show "(dir_inv e \<or> stuck e key) \<longrightarrow> (\<forall>e'. y = Inr e' \<longrightarrow> dir_inv e')"
  proof (intro impI allI)
    fix e'
    assume J: "dir_inv e \<or> stuck e key" and y: "y = Inr e'"
    from Insert_step [where f = f, OF J body] y IH show "dir_inv e'" by blast
  qed
qed

lemma dir_inv_Insert:
  "dir_inv e \<Longrightarrow> Insert e key value = Some (Inr e') \<Longrightarrow> dir_inv e'"
  using Insert_dir_inv_aux [of e key "value" "Inr e'"] by simp

lemma dir_inv_Remove:
  "dir_inv e \<Longrightarrow> Remove e key = Inr (e', r) \<Longrightarrow> dir_inv e'"
  by (rule same_shape_dir_inv [OF Remove_shape])

lemma dir_inv_New: "dir_inv (NewExtendibleHashTable bs)"
  by (rule single_bucket_dir_inv [OF single_bucket_New])

lemma reachable_dir_inv: "table_reachable bs e \<Longrightarrow> dir_inv e"
  by (induction rule: table_reachable.induct)
    (auto intro: dir_inv_New dir_inv_Insert dir_inv_Remove)

subsection \<open>The table with a shared bucket\<close>

lemma dir_inv_table_shared: "dir_inv table_shared"
  by (simp add: dir_inv_def table_shared_def less_Suc_eq)

lemma split_table_shared:
  "bucket_of table_shared ''2'' = Inr (0, \<lparr> size_B = 1, depth_B = 0, list_B = [(''1'', ''a'')] \<rparr>)"
  "split table_shared ''2'' = Inr table_split"
  by code_simp+

section \<open>The hash table: claims\<close>

text \<open>
  Claim C1 says that \<^verbatim>\<open>Find(k)\<close> returns \<open>(v, true)\<close> after \<^verbatim>\<open>Insert(k, v)\<close> and that the
  split loop always terminates by placing the pair. The program does not: with buckets
  of capacity 1, \<^verbatim>\<open>Insert("1", "a")\<close> returns and \<^verbatim>\<open>Find("1")\<close> gives \<open>("a", true)\<close>, but
  \<^verbatim>\<open>Insert("2", "b")\<close> finds the bucket full with local depth equal to the global depth,
  enters the loop that doubles the directory and never returns. (The same holds for
  every reachable table and every new key whose bucket is full, lemma
  \<open>Insert_overflow_diverges\<close>; the later version of the function returns at this
  input, lemma \<open>Insert_v2_places_pair\<close>.)
\<close>

theorem C1_Insert_overflow_never_returns:
  "Insert (NewExtendibleHashTable 1) ''1'' ''a'' = Some (Inr table1) \<and>
   Find table1 ''1'' = Inr (Some ''a'', True) \<and>
   Insert table1 ''2'' ''b'' = None"
proof -
  have "Insert table1 ''2'' ''b'' = None"
    by (simp add: Insert_single [OF single_bucket_table1])
      (simp add: table1_def Bucket_Insert_def IsFull_def)
  moreover have "Find table1 ''1'' = Inr (Some ''a'', True)"
    by (simp add: Find_def bucket_of_single [OF single_bucket_table1] Bucket_Find_def)
      (simp add: table1_def)
  ultimately show ?thesis using Insert_first by simp
qed

text \<open>
  Claim C2. Every state of the table reachable by calls of \<^verbatim>\<open>Insert\<close>, \<^verbatim>\<open>Remove\<close> and
  \<^verbatim>\<open>Find\<close> that return (for every bucket size, so for a bucket size of at least 1)
  satisfies the structural invariant \<open>dir_inv\<close> of the directory: its length is
  \<open>2 ^ globalDepth\<close>, every slot holds a non-nil bucket whose local depth is at most
  the global depth, and two slots that hold the same bucket agree on the low
  \<open>localDepth\<close> bits of their indices. The invariant is inductive, for tables of any
  shape and not only for those the cited \<^verbatim>\<open>Insert\<close> can reach: the new table satisfies
  it; \<^verbatim>\<open>Insert\<close> and \<^verbatim>\<open>Remove\<close> lead from a table that satisfies it to one that does,
  whenever they return; when the bucket of the key has the global depth, the doubling
  step of the loop body never returns (so no directory of a wrong length arises); and
  when it has a smaller depth \<open>d\<close> (the global depth being below 32), the splitting part
  of the loop body returns a table that satisfies the invariant, with one more bucket,
  in which exactly the slots of the split bucket have moved, those with bit \<open>d\<close> of the
  index clear to the first and those with the bit set to the second of two new buckets
  of local depth \<open>d + 1\<close>. (The mutex is not modelled. In the source the loop body of
  \<^verbatim>\<open>Insert\<close> calls \<^verbatim>\<open>GetLocalDepth\<close>, which takes the read lock of the mutex that \<^verbatim>\<open>Insert\<close>
  holds for writing, so a call that enters the loop body does not return there either;
  the statement on \<open>split\<close> describes what the statements of the loop body do to the
  directory.)
\<close>

theorem C2_directory_invariant:
  "dir_inv (NewExtendibleHashTable bs) \<and>
   (dir_inv e \<longrightarrow> Insert e key value = Some (Inr e') \<longrightarrow> dir_inv e') \<and>
   (dir_inv e \<longrightarrow> Remove e key = Inr (e', r) \<longrightarrow> dir_inv e') \<and>
   (dir_inv e \<longrightarrow> bucket_of e key = Inr (a, b) \<longrightarrow> depth_B b = globalDepth e \<longrightarrow>
      grow e key = None) \<and>
   (dir_inv e \<longrightarrow> globalDepth e < 32 \<longrightarrow> bucket_of e key = Inr (a, b) \<longrightarrow>
    depth_B b < globalDepth e \<longrightarrow>
      (\<exists>e2. split e key = Inr e2 \<and> dir_inv e2 \<and>
           globalDepth e2 = globalDepth e \<and> numBuckets e2 = numBuckets e + 1 \<and>
           length (dir e2) = length (dir e) \<and>
           (\<forall>i < length (dir e). dir e2 ! i =
              (if dir e ! i = Some a
               then Some (length (heap e) + (if bit i (depth_B b) then 1 else 0))
               else dir e ! i)) \<and>
           depth_B (heap e2 ! length (heap e)) = depth_B b + 1 \<and>
           depth_B (heap e2 ! (length (heap e) + 1)) = depth_B b + 1)) \<and>
   (table_reachable bs t \<longrightarrow>
      length (dir t) = 2 ^ globalDepth t \<and>
      (\<forall>i < length (dir t). \<exists>a. dir t ! i = Some a \<and> a < length (heap t) \<and>
         depth_B (heap t ! a) \<le> globalDepth t) \<and>
      (\<forall>i < length (dir t). \<forall>j < length (dir t). \<forall>a.
         dir t ! i = Some a \<longrightarrow> dir t ! j = Some a \<longrightarrow>
         i mod 2 ^ depth_B (heap t ! a) = j mod 2 ^ depth_B (heap t ! a)))"
proof (intro conjI impI)
  show "dir_inv (NewExtendibleHashTable bs)" by (rule dir_inv_New)
next
  assume "dir_inv e" "Insert e key value = Some (Inr e')"
  then show "dir_inv e'" by (rule dir_inv_Insert)
next
  assume "dir_inv e" "Remove e key = Inr (e', r)"
  then show "dir_inv e'" by (rule dir_inv_Remove)
next
  assume d: "dir_inv e" and bo: "bucket_of e key = Inr (a, b)" and eq: "depth_B b = globalDepth e"
  from d have "length (dir e) = 2 ^ globalDepth e" by (simp add: dir_inv_def)
  from grow_cases [OF bo this] eq show "grow e key = None" by simp
next
  assume "dir_inv e" "globalDepth e < 32" "bucket_of e key = Inr (a, b)"
    "depth_B b < globalDepth e"
  then show "\<exists>e2. split e key = Inr e2 \<and> dir_inv e2 \<and>
           globalDepth e2 = globalDepth e \<and> numBuckets e2 = numBuckets e + 1 \<and>
           length (dir e2) = length (dir e) \<and>
           (\<forall>i < length (dir e). dir e2 ! i =
              (if dir e ! i = Some a
               then Some (length (heap e) + (if bit i (depth_B b) then 1 else 0))
               else dir e ! i)) \<and>
           depth_B (heap e2 ! length (heap e)) = depth_B b + 1 \<and>
           depth_B (heap e2 ! (length (heap e) + 1)) = depth_B b + 1"
    by (rule split_step)
next
  assume "table_reachable bs t"
  then have "dir_inv t" by (rule reachable_dir_inv)
  then show "length (dir t) = 2 ^ globalDepth t"
    and "\<forall>i < length (dir t). \<exists>a. dir t ! i = Some a \<and> a < length (heap t) \<and>
         depth_B (heap t ! a) \<le> globalDepth t"
    and "\<forall>i < length (dir t). \<forall>j < length (dir t). \<forall>a.
         dir t ! i = Some a \<longrightarrow> dir t ! j = Some a \<longrightarrow>
         i mod 2 ^ depth_B (heap t ! a) = j mod 2 ^ depth_B (heap t ! a)"
    unfolding dir_inv_def by blast+
qed

theorem C2_directory_invariant_witness:
  "dir_inv table_shared \<and> split table_shared ''2'' = Inr table_split \<and>
   dir_inv table_split \<and> dir table_split = [Some 1, Some 2] \<and>
   table_reachable 1 table1 \<and> dir_inv table1 \<and> length (dir table1) = 2 ^ globalDepth table1 \<and>
   grow table1 ''2'' = None"
proof -
  let ?b = "\<lparr> size_B = 1, depth_B = 0, list_B = [(''1'', ''a'')] \<rparr> :: string Bucket"
  note inst = C2_directory_invariant
    [of 1 table_shared "''2''" "''b''" table_split False 0 ?b table1]
  note inst1 = C2_directory_invariant
    [of 1 table1 "''2''" "''b''" table1 False 0 ?b table1]
  have g: "globalDepth table_shared < 32" "depth_B ?b < globalDepth table_shared"
    by (simp_all add: table_shared_def)
  from inst dir_inv_table_shared g split_table_shared
  have s: "dir_inv table_split" by auto
  from inst table1_reachable have r: "length (dir table1) = 2 ^ globalDepth table1" by blast
  have d1: "dir_inv table1" by (rule single_bucket_dir_inv [OF single_bucket_table1])
  have b1: "bucket_of table1 ''2'' = Inr (0, ?b)" "depth_B ?b = globalDepth table1"
    by (simp_all add: bucket_of_single [OF single_bucket_table1]) (simp_all add: table1_def)
  from inst1 d1 b1 have gr: "grow table1 ''2'' = None" by blast
  have "dir table_split = [Some 1, Some 2]" by (simp add: table_split_def)
  with s r d1 gr dir_inv_table_shared split_table_shared(2) table1_reachable
  show ?thesis by simp
qed

text \<open>
  Claim C8. \<^verbatim>\<open>Insert\<close> of a key that the table already holds (in a reachable state with
  the key present, or in any state in which \<^verbatim>\<open>Find\<close> finds the key) returns, afterwards
  \<^verbatim>\<open>Find\<close> gives the new value, and \<open>numBuckets\<close>, \<open>globalDepth\<close> and the directory are
  unchanged: no split happens, also when the bucket is full.
\<close>

theorem C8_Insert_duplicate:
  "(table_reachable bs e \<longrightarrow> present e key \<longrightarrow>
      (\<exists>e'. Insert e key value = Some (Inr e') \<and> Find e' key = Inr (Some value, True) \<and>
         numBuckets e' = numBuckets e \<and> globalDepth e' = globalDepth e \<and> dir e' = dir e)) \<and>
   (Find e key = Inr (old, True) \<longrightarrow>
      (\<exists>e'. Insert e key value = Some (Inr e') \<and> Find e' key = Inr (Some value, True) \<and>
         numBuckets e' = numBuckets e \<and> globalDepth e' = globalDepth e \<and> dir e' = dir e))"
proof (intro conjI impI)
  assume r: "table_reachable bs e" and p: "present e key"
  have sb: "single_bucket e" by (rule reachable_single_bucket [OF r])
  from p have "key \<in> fst ` set (list_B (heap e ! 0))"
    by (simp add: present_single [OF sb])
  from Insert_existing [OF bucket_of_single [OF sb] this, of "value"]
  show "\<exists>e'. Insert e key value = Some (Inr e') \<and> Find e' key = Inr (Some value, True) \<and>
         numBuckets e' = numBuckets e \<and> globalDepth e' = globalDepth e \<and> dir e' = dir e"
    by simp
next
  assume "Find e key = Inr (old, True)"
  from Find_found [OF this] obtain a b where
    ab: "bucket_of e key = Inr (a, b)" "key \<in> fst ` set (list_B b)" by blast
  from Insert_existing [OF ab, of "value"]
  show "\<exists>e'. Insert e key value = Some (Inr e') \<and> Find e' key = Inr (Some value, True) \<and>
         numBuckets e' = numBuckets e \<and> globalDepth e' = globalDepth e \<and> dir e' = dir e"
    by simp
qed

theorem C8_Insert_duplicate_witness:
  "(\<exists>e'. Insert table1 ''1'' ''c'' = Some (Inr e') \<and> Find e' ''1'' = Inr (Some ''c'', True) \<and>
      numBuckets e' = numBuckets table1 \<and> globalDepth e' = globalDepth table1 \<and>
      dir e' = dir table1) \<and> IsFull (heap table1 ! 0) \<and> present table1 ''1''"
  using C8_Insert_duplicate [of 1 table1 "''1''" "''c''"] table1_reachable table1_present(1)
  by (simp add: IsFull_def) (simp add: table1_def)

text \<open>
  Claim C10. \<^verbatim>\<open>Remove\<close> of a key that is not in the table (in a reachable state without
  the key, or in any state in which \<^verbatim>\<open>Find\<close> does not find the key) returns false and
  leaves the whole table as it was: directory, depths, \<open>numBuckets\<close> and the entries of
  every bucket.
\<close>

theorem C10_Remove_absent:
  "(table_reachable bs e \<longrightarrow> \<not> present e key \<longrightarrow> Remove e key = Inr (e, False)) \<and>
   (Find e key = Inr (x, False) \<longrightarrow> Remove e key = Inr (e, False))"
proof (intro conjI impI)
  assume r: "table_reachable bs e" and p: "\<not> present e key"
  have sb: "single_bucket e" by (rule reachable_single_bucket [OF r])
  from p have "key \<notin> fst ` set (list_B (heap e ! 0))"
    by (simp add: present_single [OF sb])
  from Remove_absent [OF bucket_of_single [OF sb] this]
  show "Remove e key = Inr (e, False)" .
next
  assume "Find e key = Inr (x, False)"
  from Find_not_found [OF this] obtain a b where
    ab: "bucket_of e key = Inr (a, b)" "key \<notin> fst ` set (list_B b)" by blast
  from Remove_absent [OF ab] show "Remove e key = Inr (e, False)" .
qed

theorem C10_Remove_absent_witness:
  "Remove table1 ''2'' = Inr (table1, False) \<and> \<not> present table1 ''2''"
  using C10_Remove_absent [of 1 table1 "''2''"] table1_reachable table1_present(2) by simp

end
